theory Spec2Isabelle
  imports Main
begin

section \<open>Strings and paths\<close>

text \<open>
  Python strings are modelled as \<open>string\<close> (lists of 8-bit characters). Case folding and
  the digit class are the ASCII ones: \<open>str.lower\<close> maps \<open>A..Z\<close> to \<open>a..z\<close> and leaves
  every other character alone, and \<open>\d\<close> is \<open>0..9\<close>. File names are therefore ASCII
  file names in this development.
\<close>

type_synonym path = string

definition ascii_lower :: "char \<Rightarrow> char" where
  "ascii_lower c =
     (case map_of (zip ''ABCDEFGHIJKLMNOPQRSTUVWXYZ'' ''abcdefghijklmnopqrstuvwxyz'') c of
        Some d \<Rightarrow> d
      | None \<Rightarrow> c)"

text \<open>\<^verbatim>\<open>s.lower()\<close>\<close>

definition lower :: "string \<Rightarrow> string" where
  "lower s = map ascii_lower s"

text \<open>The character class \<^verbatim>\<open>\d\<close>.\<close>

definition is_digit :: "char \<Rightarrow> bool" where
  "is_digit c = (c \<in> set ''0123456789'')"

text \<open>\<^verbatim>\<open>s.endswith(suf)\<close>\<close>

definition endswith :: "string \<Rightarrow> string \<Rightarrow> bool" where
  "endswith s suf = (length suf \<le> length s \<and> drop (length s - length suf) s = suf)"

text \<open>\<^verbatim>\<open>s.startswith(pre)\<close>\<close>

definition startswith :: "string \<Rightarrow> string \<Rightarrow> bool" where
  "startswith s pre = (take (length pre) s = pre)"

text \<open>\<^verbatim>\<open>p.rfind(c)\<close> for a one-character needle: the index of its last occurrence, or \<open>-1\<close>.\<close>

definition rfind :: "string \<Rightarrow> char \<Rightarrow> int" where
  "rfind p c = int (length p) - 1 - int (length (takeWhile (\<lambda>x. x \<noteq> c) (rev p)))"

text \<open>\<^verbatim>\<open>s.rstrip('/')\<close>\<close>

definition rstrip_slash :: "string \<Rightarrow> string" where
  "rstrip_slash s = rev (dropWhile (\<lambda>x. x = CHR ''/'') (rev s))"

text \<open>\<^verbatim>\<open>s.replace(".", " (1).")\<close>: every dot of \<open>s\<close> is replaced.\<close>

definition replace_dot :: "string \<Rightarrow> string" where
  "replace_dot s = concat (map (\<lambda>c. if c = CHR ''.'' then '' (1).'' else [c]) s)"

text \<open>
  \<^verbatim>\<open>os.path.splitext\<close> (posixpath, that is \<^verbatim>\<open>genericpath._splitext(p, '/', None, '.')\<close>):
  the extension starts at the last dot, provided that dot comes after the last slash and
  some character between the two is not a dot.
\<close>

definition splitext :: "path \<Rightarrow> string \<times> string" where
  "splitext p =
     (let sepIndex = rfind p CHR ''/'';
          dotIndex = rfind p CHR ''.''
      in if dotIndex > sepIndex \<and>
            list_ex (\<lambda>c. c \<noteq> CHR ''.'')
              (take (nat (dotIndex - (sepIndex + 1))) (drop (nat (sepIndex + 1)) p))
         then (take (nat dotIndex) p, drop (nat dotIndex) p)
         else (p, []))"

text \<open>\<^verbatim>\<open>os.path.basename\<close>\<close>

definition basename :: "path \<Rightarrow> string" where
  "basename p = drop (nat (rfind p CHR ''/'' + 1)) p"

text \<open>\<^verbatim>\<open>os.path.dirname\<close>\<close>

definition dirname :: "path \<Rightarrow> string" where
  "dirname p =
     (let head = take (nat (rfind p CHR ''/'' + 1)) p
      in if head \<noteq> [] \<and> head \<noteq> replicate (length head) CHR ''/'' then rstrip_slash head
         else head)"

text \<open>\<^verbatim>\<open>os.path.join(a, b)\<close>\<close>

definition join :: "path \<Rightarrow> string \<Rightarrow> path" where
  "join a b =
     (if startswith b ''/'' then b
      else if a = [] \<or> endswith a ''/'' then a @ b
      else a @ ''/'' @ b)"

section \<open>Filename canonicalisation\<close>

text \<open>
  \<^verbatim>\<open>re.match(r'^IMG_\d{4}\.(jpg|heic)$', filename, re.IGNORECASE)\<close>. Without
  \<^verbatim>\<open>re.MULTILINE\<close> the anchor \<^verbatim>\<open>$\<close> matches at the end of the string and also just before
  a newline that ends the string.
\<close>

definition re_match_canonical :: "string \<Rightarrow> bool" where
  "re_match_canonical f =
     (lower (take 4 f) = ''img_'' \<and>
      length (take 4 (drop 4 f)) = 4 \<and> list_all is_digit (take 4 (drop 4 f)) \<and>
      lower (drop 8 f) \<in> set [''.jpg'', ''.heic'', ''.jpg'' @ [CHR 0x0A], ''.heic'' @ [CHR 0x0A]])"

text \<open>The pattern \<^verbatim>\<open>IMG_\d{4}\<close> (case-sensitive) matches at the start of \<open>s\<close>.\<close>

definition img_at :: "string \<Rightarrow> bool" where
  "img_at s =
     (take 4 s = ''IMG_'' \<and> length (take 4 (drop 4 s)) = 4 \<and> list_all is_digit (take 4 (drop 4 s)))"

text \<open>\<^verbatim>\<open>re.search(r'IMG_\d{4}', filename)\<close>: the leftmost match, \<^verbatim>\<open>match.group(0)\<close>.\<close>

fun re_search_img :: "string \<Rightarrow> string option" where
  "re_search_img [] = None"
| "re_search_img (c # cs) =
     (if img_at (c # cs) then Some (take 8 (c # cs)) else re_search_img cs)"

definition extract_img_pattern :: "string \<Rightarrow> string" where
  "extract_img_pattern filename =
     (if \<not> (endswith (lower filename) ''.jpg'' \<or> endswith (lower filename) ''.heic'') then filename
      else if re_match_canonical filename then filename
      else case re_search_img filename of
             Some m \<Rightarrow> m @ snd (splitext filename)
           | None \<Rightarrow> filename)"

definition get_live_photo_name :: "string \<Rightarrow> string" where
  "get_live_photo_name photo_name = fst (splitext photo_name) @ ''_HEVC.MOV''"

text \<open>The collision-suffixed sibling of a target path, as line 167 computes it.\<close>

definition duplicate_path_of :: "path \<Rightarrow> path" where
  "duplicate_path_of p = join (dirname p) (replace_dot (basename p))"

subsection \<open>The specification's vocabulary\<close>

text \<open>
  These follow the words of the specification, to be compared with the code above:
  an \<open>IMG_\<close> token is \<open>IMG_\<close> followed by four digits; a canonical name is such a token,
  in any letter case, followed by \<open>.jpg\<close> or \<open>.heic\<close> in any letter case; a name has a
  jpg/heic extension when it ends, in any letter case, with \<open>.jpg\<close> or \<open>.heic\<close>.
\<close>

definition img_token :: "string \<Rightarrow> bool" where
  "img_token m = (\<exists>d. m = ''IMG_'' @ d \<and> length d = 4 \<and> list_all is_digit d)"

definition canonical_name :: "string \<Rightarrow> bool" where
  "canonical_name f =
     (\<exists>p d e. f = p @ d @ e \<and> lower p = ''img_'' \<and> length d = 4 \<and> list_all is_digit d \<and>
        (lower e = ''.jpg'' \<or> lower e = ''.heic''))"

definition jpg_or_heic :: "string \<Rightarrow> bool" where
  "jpg_or_heic f = (\<exists>stem e. f = stem @ e \<and> (lower e = ''.jpg'' \<or> lower e = ''.heic''))"

text \<open>\<open>m\<close> occurs in \<open>f\<close> after \<open>pre\<close>, and no \<open>IMG_\<close> token starts further left.\<close>

definition first_img_token :: "string \<Rightarrow> string \<Rightarrow> bool" where
  "first_img_token f m =
     (\<exists>pre post. f = pre @ m @ post \<and> img_token m \<and>
        (\<forall>pre' m' post'. f = pre' @ m' @ post' \<and> img_token m' \<longrightarrow> length pre \<le> length pre'))"

definition has_img_token :: "string \<Rightarrow> bool" where
  "has_img_token f = (\<exists>pre m post. f = pre @ m @ post \<and> img_token m)"

text \<open>
  The sibling the specification describes: \<open> (1)\<close> inserted once, immediately before the
  final extension of the file name.
\<close>

definition sibling_spec :: "path \<Rightarrow> path" where
  "sibling_spec p =
     join (dirname p) (fst (splitext (basename p)) @ '' (1)'' @ snd (splitext (basename p)))"

text \<open>\<^verbatim>\<open>str(n)\<close> for a natural number: its decimal digits.\<close>

definition digit_char :: "nat \<Rightarrow> char" where
  "digit_char n = ''0123456789'' ! n"

fun str_nat :: "nat \<Rightarrow> string" where
  "str_nat n = (if n < 10 then [digit_char n] else str_nat (n div 10) @ [digit_char (n mod 10)])"

declare str_nat.simps [simp del]

text \<open>\<^verbatim>\<open>f"{n:02}"\<close>: decimal, padded with zeros on the left to two characters.\<close>

definition format_02 :: "nat \<Rightarrow> string" where
  "format_02 n = (if n < 10 then ''0'' @ str_nat n else str_nat n)"

section \<open>Data model\<close>

text \<open>The Python exceptions the program can meet; \<open>OtherException\<close> is any other \<^verbatim>\<open>Exception\<close>.\<close>

datatype pyexc = FileNotFoundError | UnidentifiedImageError | TypeError | OtherException

text \<open>
  What the program reads from \<^verbatim>\<open>photo.date\<close>: the calendar date \<^verbatim>\<open>photo.date.date()\<close>
  as its proleptic Gregorian ordinal (dates compare as their ordinals do), the year, the
  month, and \<^verbatim>\<open>photo.date.timestamp()\<close> in seconds.
\<close>

record pdatetime =
  date_ordinal :: int
  year :: nat
  month :: nat
  timestamp :: int

text \<open>
  A photo of the library, with the attributes the program reads. \<^verbatim>\<open>photo.path\<close> and
  \<^verbatim>\<open>photo.path_edited\<close> are \<^verbatim>\<open>None\<close> when the library has no file for them.
\<close>

record photo =
  original_filename :: string
  path :: "path option"
  path_edited :: "path option"
  hasadjustments :: bool
  live_photo :: bool
  date :: pdatetime

text \<open>The global \<^verbatim>\<open>report\<close> dictionary: five counters, Python integers.\<close>

record counters =
  originals_exported :: int
  edits_exported :: int
  live_photos_exported :: int
  duplicates_skipped :: int
  duplicates_created :: int

text \<open>An entry of the global \<^verbatim>\<open>failed_files\<close> list.\<close>

record failed_entry =
  entry_path :: path
  entry_date :: pdatetime
  entry_timestamp :: int

text \<open>
  The calls the program makes to the world outside it, in the order it makes them. The
  log is a ghost field of the state: the program never reads it.
\<close>

datatype call =
    Exists path
  | Export photo path string bool bool
  | Utime path int
  | Sleep
  | Makedirs path

text \<open>
  The world outside the program is a value of some type \<open>'w\<close>; the operations the
  program uses on it are the fields of an environment. Observations
  (\<^verbatim>\<open>os.path.exists\<close>, reading a file, opening an image) leave the world as it is and may
  raise; actions (\<^verbatim>\<open>photo.export\<close>, \<^verbatim>\<open>os.utime\<close>, \<^verbatim>\<open>os.makedirs\<close>) return the new world
  and the exception they raised, if any; \<^verbatim>\<open>time.sleep(1)\<close> lets the world move on.
  \<open>'i\<close> is the type of decoded images, and a perceptual hash is the bit array that
  \<^verbatim>\<open>imagehash.phash\<close> returns. \<open>heif_image\<close> is \<^verbatim>\<open>pyheif.read\<close> followed by
  \<^verbatim>\<open>Image.frombytes\<close>.
\<close>

record ('w, 'i) env =
  os_path_exists :: "'w \<Rightarrow> path \<Rightarrow> bool"
  read_bytes :: "'w \<Rightarrow> path \<Rightarrow> pyexc + string"
  sha256_hexdigest :: "string \<Rightarrow> string"
  Image_open :: "'w \<Rightarrow> path \<Rightarrow> pyexc + 'i"
  heif_image :: "'w \<Rightarrow> path \<Rightarrow> pyexc + 'i"
  phash :: "'i \<Rightarrow> pyexc + bool list"
  photo_export :: "photo \<Rightarrow> path \<Rightarrow> string \<Rightarrow> bool \<Rightarrow> bool \<Rightarrow> 'w \<Rightarrow> pyexc option \<times> 'w"
  os_utime :: "path \<Rightarrow> int \<Rightarrow> 'w \<Rightarrow> pyexc option \<times> 'w"
  time_sleep :: "'w \<Rightarrow> 'w"
  os_makedirs :: "path \<Rightarrow> 'w \<Rightarrow> pyexc option \<times> 'w"

text \<open>The program's globals, the call log and the world.\<close>

record 'w state =
  report :: counters
  failed_files :: "failed_entry list"
  calls :: "call list"
  world :: 'w

definition EXPORT_PATH :: path where
  "EXPORT_PATH = ''/Volumes/Archive/Picture Sources 01 RAW/15. iCloud Photos''"

definition OVERLAP_PERIOD :: int where
  "OVERLAP_PERIOD = 35"

text \<open>\<open>today\<close> is the ordinal of \<^verbatim>\<open>datetime.date.today()\<close>.\<close>

definition START_DATE :: "int \<Rightarrow> int" where
  "START_DATE today = today - OVERLAP_PERIOD"

definition SUPPORTED_IMAGE_FORMATS :: "string list" where
  "SUPPORTED_IMAGE_FORMATS =
     [''.jpg'', ''.jpeg'', ''.png'', ''.bmp'', ''.tiff'', ''.gif'', ''.heic'', ''.avif'']"

section \<open>Content Comparator\<close>

definition heic_to_pil :: "('w, 'i) env \<Rightarrow> 'w \<Rightarrow> path \<Rightarrow> pyexc + 'i" where
  "heic_to_pil E w image_path = heif_image E w image_path"

definition file_hash :: "('w, 'i) env \<Rightarrow> 'w \<Rightarrow> path \<Rightarrow> pyexc + string" where
  "file_hash E w filepath =
     (case read_bytes E w filepath of
        Inl e \<Rightarrow> Inl e
      | Inr b \<Rightarrow> Inr (sha256_hexdigest E b))"

text \<open>\<^verbatim>\<open>file_hash(photo_path) == file_hash(existing_path)\<close>, left operand first.\<close>

definition file_hash_equal :: "('w, 'i) env \<Rightarrow> 'w \<Rightarrow> path \<Rightarrow> path \<Rightarrow> pyexc + bool" where
  "file_hash_equal E w photo_path existing_path =
     (case file_hash E w photo_path of
        Inl e \<Rightarrow> Inl e
      | Inr h1 \<Rightarrow>
          (case file_hash E w existing_path of
             Inl e \<Rightarrow> Inl e
           | Inr h2 \<Rightarrow> Inr (h1 = h2)))"

text \<open>The body of the \<^verbatim>\<open>try\<close> block of \<^verbatim>\<open>file_hashes_match\<close> (lines 133 to 146).\<close>

definition perceptual_equal ::
  "('w, 'i) env \<Rightarrow> 'w \<Rightarrow> path \<Rightarrow> string \<Rightarrow> path \<Rightarrow> string \<Rightarrow> pyexc + bool" where
  "perceptual_equal E w photo_path photo_ext' existing_path existing_ext' =
     (case (if photo_ext' = ''.heic'' then heic_to_pil E w photo_path
            else Image_open E w photo_path) of
        Inl e \<Rightarrow> Inl e
      | Inr photo_image \<Rightarrow>
          (case (if existing_ext' = ''.heic'' then heic_to_pil E w existing_path
                 else Image_open E w existing_path) of
             Inl e \<Rightarrow> Inl e
           | Inr existing_image \<Rightarrow>
               (case phash E photo_image of
                  Inl e \<Rightarrow> Inl e
                | Inr photo_hash \<Rightarrow>
                    (case phash E existing_image of
                       Inl e \<Rightarrow> Inl e
                     | Inr existing_hash \<Rightarrow> Inr (photo_hash = existing_hash)))))"

definition file_hashes_match :: "('w, 'i) env \<Rightarrow> 'w \<Rightarrow> path \<Rightarrow> path \<Rightarrow> pyexc + bool" where
  "file_hashes_match E w photo_path existing_path =
     (let photo_ext' = lower (snd (splitext photo_path));
          existing_ext' = lower (snd (splitext existing_path))
      in if photo_ext' \<notin> set SUPPORTED_IMAGE_FORMATS \<or> existing_ext' \<notin> set SUPPORTED_IMAGE_FORMATS
         then file_hash_equal E w photo_path existing_path
         else (case perceptual_equal E w photo_path photo_ext' existing_path existing_ext' of
                 Inr b \<Rightarrow> Inr b
               | Inl UnidentifiedImageError \<Rightarrow> file_hash_equal E w photo_path existing_path
               | Inl e \<Rightarrow> file_hash_equal E w photo_path existing_path))"

text \<open>
  The call as \<^verbatim>\<open>export_photo_variant\<close> makes it: its first argument is \<^verbatim>\<open>photo.path\<close> or
  \<^verbatim>\<open>photo.path_edited\<close>, and \<^verbatim>\<open>os.path.splitext(None)\<close> raises \<^verbatim>\<open>TypeError\<close>.
\<close>

definition file_hashes_match_arg ::
  "('w, 'i) env \<Rightarrow> 'w \<Rightarrow> path option \<Rightarrow> path \<Rightarrow> pyexc + bool" where
  "file_hashes_match_arg E w photo_path existing_path =
     (case photo_path of
        None \<Rightarrow> Inl TypeError
      | Some p \<Rightarrow> file_hashes_match E w p existing_path)"

section \<open>Duplicate Reconciler and Timestamp Synchronizer\<close>

definition log_call :: "call \<Rightarrow> 'w state \<Rightarrow> 'w state" where
  "log_call c s = s\<lparr>calls := calls s @ [c]\<rparr>"

text \<open>\<^verbatim>\<open>os.path.exists(p)\<close>, logged.\<close>

definition check_exists :: "('w, 'i) env \<Rightarrow> path \<Rightarrow> 'w state \<Rightarrow> bool \<times> 'w state" where
  "check_exists E p s = (os_path_exists E (world s) p, log_call (Exists p) s)"

definition set_file_timestamp ::
  "('w, 'i) env \<Rightarrow> path \<Rightarrow> pdatetime \<Rightarrow> 'w state \<Rightarrow> pyexc option \<times> 'w state" where
  "set_file_timestamp E file_path ts s =
     (let epoch_time = timestamp ts;
          s1 = log_call (Utime file_path epoch_time) s;
          (r, w) = os_utime E file_path epoch_time (world s1)
      in (r, s1\<lparr>world := w\<rparr>))"

text \<open>
  \<^verbatim>\<open>photo.export(os.path.dirname(path), filename=os.path.basename(path),
  use_photos_export=is_edited, live_photo=is_live)\<close>
\<close>

definition call_export ::
  "('w, 'i) env \<Rightarrow> photo \<Rightarrow> path \<Rightarrow> bool \<Rightarrow> bool \<Rightarrow> 'w state \<Rightarrow> pyexc option \<times> 'w state" where
  "call_export E ph p is_edited is_live s =
     (let s1 = log_call (Export ph (dirname p) (basename p) is_edited is_live) s;
          (r, w) = photo_export E ph (dirname p) (basename p) is_edited is_live (world s1)
      in (r, s1\<lparr>world := w\<rparr>))"

text \<open>The handler of both \<^verbatim>\<open>except\<close> clauses: append an entry to \<^verbatim>\<open>failed_files\<close>.\<close>

definition append_failed :: "path \<Rightarrow> photo \<Rightarrow> 'w state \<Rightarrow> 'w state" where
  "append_failed p ph s =
     s\<lparr>failed_files := failed_files s @
          [\<lparr>entry_path = p, entry_date = date ph, entry_timestamp = timestamp (date ph)\<rparr>]\<rparr>"

text \<open>
  The loop \<^verbatim>\<open>for _ in range(5)\<close> of lines 191 to 197, with the number of rounds left as
  its first argument: \<^verbatim>\<open>break\<close> after the timestamp is set, a sleep after every check
  that fails, and the \<^verbatim>\<open>else\<close> clause raising \<^verbatim>\<open>FileNotFoundError\<close> when the rounds are
  used up. The result is the exception that leaves the loop, if any.
\<close>

fun poll_timestamp ::
  "('w, 'i) env \<Rightarrow> nat \<Rightarrow> path \<Rightarrow> photo \<Rightarrow> 'w state \<Rightarrow> pyexc option \<times> 'w state" where
  "poll_timestamp E 0 p ph s = (Some FileNotFoundError, s)"
| "poll_timestamp E (Suc n) p ph s =
     (case check_exists E p s of
        (True, s1) \<Rightarrow> set_file_timestamp E p (date ph) s1
      | (False, s1) \<Rightarrow>
          poll_timestamp E n p ph ((log_call Sleep s1)\<lparr>world := time_sleep E (world s1)\<rparr>))"

text \<open>The \<^verbatim>\<open>try\<close> statement of lines 190 to 204.\<close>

definition sync_timestamp_retry :: "('w, 'i) env \<Rightarrow> path \<Rightarrow> photo \<Rightarrow> 'w state \<Rightarrow> 'w state" where
  "sync_timestamp_retry E p ph s =
     (case poll_timestamp E 5 p ph s of
        (None, s1) \<Rightarrow> s1
      | (Some FileNotFoundError, s1) \<Rightarrow> append_failed p ph s1
      | (Some e, s1) \<Rightarrow> append_failed p ph s1)"

text \<open>The \<^verbatim>\<open>try\<close> statement of lines 226 to 234.\<close>

definition sync_timestamp_once :: "('w, 'i) env \<Rightarrow> path \<Rightarrow> photo \<Rightarrow> 'w state \<Rightarrow> 'w state" where
  "sync_timestamp_once E p ph s =
     (case set_file_timestamp E p (date ph) s of
        (None, s1) \<Rightarrow> s1
      | (Some FileNotFoundError, s1) \<Rightarrow> append_failed p ph s1
      | (Some e, s1) \<Rightarrow> append_failed p ph s1)"

text \<open>The "Update report" statements (lines 207 to 212 and 240 to 245).\<close>

definition update_report :: "bool \<Rightarrow> bool \<Rightarrow> 'w state \<Rightarrow> 'w state" where
  "update_report is_edited is_live s =
     (if is_edited then s\<lparr>report := (report s)\<lparr>edits_exported := edits_exported (report s) + 1\<rparr>\<rparr>
      else if is_live
        then s\<lparr>report := (report s)\<lparr>live_photos_exported := live_photos_exported (report s) + 1\<rparr>\<rparr>
      else s\<lparr>report := (report s)\<lparr>originals_exported := originals_exported (report s) + 1\<rparr>\<rparr>)"

definition skip_duplicate :: "'w state \<Rightarrow> 'w state" where
  "skip_duplicate s = s\<lparr>report := (report s)\<lparr>duplicates_skipped := duplicates_skipped (report s) + 1\<rparr>\<rparr>"

text \<open>
  Lines 183 to 216: reached in the mismatch branch after the export, and also from the
  \<^verbatim>\<open>else\<close> of line 179, which only prints and falls through.
\<close>

definition after_mismatch ::
  "('w, 'i) env \<Rightarrow> photo \<Rightarrow> path \<Rightarrow> path \<Rightarrow> bool \<Rightarrow> bool \<Rightarrow> bool \<Rightarrow> 'w state
     \<Rightarrow> (pyexc + bool) \<times> 'w state" where
  "after_mismatch E ph p duplicate_path pre_existing_duplicate is_edited is_live s =
     (let (now_exists, s1) = check_exists E duplicate_path s;
          created = (now_exists \<and> \<not> pre_existing_duplicate);
          s2 = (if created
                then s1\<lparr>report := (report s1)\<lparr>duplicates_created := duplicates_created (report s1) + 1\<rparr>\<rparr>
                else s1);
          p' = (if created then duplicate_path else p);
          s3 = sync_timestamp_retry E p' ph s2
      in (Inr False, update_report is_edited is_live s3))"

definition export_photo_variant ::
  "('w, 'i) env \<Rightarrow> photo \<Rightarrow> path \<Rightarrow> bool \<Rightarrow> bool \<Rightarrow> 'w state \<Rightarrow> (pyexc + bool) \<times> 'w state" where
  "export_photo_variant E ph p is_edited is_live s =
     (case check_exists E p s of
        (True, s1) \<Rightarrow>
          (let photo_path = (if is_edited then path_edited ph else path ph)
           in case file_hashes_match_arg E (world s1) photo_path p of
                Inl e \<Rightarrow> (Inl e, s1)
              | Inr True \<Rightarrow> (Inr True, skip_duplicate s1)
              | Inr False \<Rightarrow>
                  (let duplicate_path = duplicate_path_of p;
                       (pre_existing_duplicate, s2) = check_exists E duplicate_path s1
                   in if \<not> pre_existing_duplicate
                      then (case call_export E ph p is_edited is_live s2 of
                              (Some e, s3) \<Rightarrow> (Inl e, s3)
                            | (None, s3) \<Rightarrow>
                                after_mismatch E ph p duplicate_path pre_existing_duplicate
                                  is_edited is_live s3)
                      else (case file_hashes_match_arg E (world s2) photo_path duplicate_path of
                              Inl e \<Rightarrow> (Inl e, s2)
                            | Inr True \<Rightarrow> (Inr True, skip_duplicate s2)
                            | Inr False \<Rightarrow>
                                after_mismatch E ph p duplicate_path pre_existing_duplicate
                                  is_edited is_live s2)))
      | (False, s1) \<Rightarrow>
          (case call_export E ph p is_edited is_live s1 of
             (Some e, s2) \<Rightarrow> (Inl e, s2)
           | (None, s2) \<Rightarrow>
               (Inr False, update_report is_edited is_live (sync_timestamp_once E p ph s2))))"

section \<open>Pipeline Driver\<close>

definition year_month_path :: "photo \<Rightarrow> path" where
  "year_month_path ph =
     join (join EXPORT_PATH (str_nat (year (date ph)))) (format_02 (month (date ph)))"

definition original_path :: "photo \<Rightarrow> path" where
  "original_path ph = join (year_month_path ph) (extract_img_pattern (original_filename ph))"

definition edited_path :: "photo \<Rightarrow> path" where
  "edited_path ph =
     (let original_filename = extract_img_pattern (original_filename ph);
          (edited_filename_without_ext, file_extension) = splitext original_filename;
          edited_filename = edited_filename_without_ext @ ''-edited'' @ file_extension
      in join (year_month_path ph) edited_filename)"

definition live_photo_path :: "photo \<Rightarrow> path" where
  "live_photo_path ph =
     join (year_month_path ph) (get_live_photo_name (extract_img_pattern (original_filename ph)))"

text \<open>\<^verbatim>\<open>os.makedirs(year_month_path, exist_ok=True)\<close>\<close>

definition call_makedirs :: "('w, 'i) env \<Rightarrow> path \<Rightarrow> 'w state \<Rightarrow> pyexc option \<times> 'w state" where
  "call_makedirs E p s =
     (let s1 = log_call (Makedirs p) s;
          (r, w) = os_makedirs E p (world s1)
      in (r, s1\<lparr>world := w\<rparr>))"

text \<open>The Edited and Live variants of one photo (lines 267 to 278).\<close>

definition export_other_variants ::
  "('w, 'i) env \<Rightarrow> photo \<Rightarrow> 'w state \<Rightarrow> (pyexc + unit) \<times> 'w state" where
  "export_other_variants E ph s =
     (case (if hasadjustments ph then export_photo_variant E ph (edited_path ph) True False s
            else (Inr False, s)) of
        (Inl e, s1) \<Rightarrow> (Inl e, s1)
      | (Inr _, s1) \<Rightarrow>
          (if live_photo ph
           then (case export_photo_variant E ph (live_photo_path ph) False True s1 of
                   (Inl e, s2) \<Rightarrow> (Inl e, s2)
                 | (Inr _, s2) \<Rightarrow> (Inr (), s2))
           else (Inr (), s1)))"

text \<open>The body of the loop of \<^verbatim>\<open>export_photos\<close> for one photo.\<close>

definition process_photo ::
  "('w, 'i) env \<Rightarrow> photo \<Rightarrow> 'w state \<Rightarrow> (pyexc + unit) \<times> 'w state" where
  "process_photo E ph s =
     (case call_makedirs E (year_month_path ph) s of
        (Some e, s1) \<Rightarrow> (Inl e, s1)
      | (None, s1) \<Rightarrow>
          (case export_photo_variant E ph (original_path ph) False False s1 of
             (Inl e, s2) \<Rightarrow> (Inl e, s2)
           | (Inr is_duplicate, s2) \<Rightarrow>
               (if \<not> is_duplicate then export_other_variants E ph s2 else (Inr (), s2))))"

text \<open>The loop itself: an exception ends the run.\<close>

fun process_photos ::
  "('w, 'i) env \<Rightarrow> photo list \<Rightarrow> 'w state \<Rightarrow> (pyexc + unit) \<times> 'w state" where
  "process_photos E [] s = (Inr (), s)"
| "process_photos E (ph # phs) s =
     (case process_photo E ph s of
        (Inl e, s1) \<Rightarrow> (Inl e, s1)
      | (Inr _, s1) \<Rightarrow> process_photos E phs s1)"

text \<open>\<^verbatim>\<open>[photo for photo in photosdb.photos() if photo.date.date() >= START_DATE]\<close>\<close>

definition photos_to_process :: "int \<Rightarrow> photo list \<Rightarrow> photo list" where
  "photos_to_process today library =
     filter (\<lambda>ph. date_ordinal (date ph) \<ge> START_DATE today) library"

text \<open>
  \<^verbatim>\<open>export_photos\<close>, with the library's photos in enumeration order and today's ordinal
  as arguments. The printed report is the final state's \<open>report\<close> and \<open>failed_files\<close>.
\<close>

definition export_photos ::
  "('w, 'i) env \<Rightarrow> int \<Rightarrow> photo list \<Rightarrow> 'w state \<Rightarrow> (pyexc + unit) \<times> 'w state" where
  "export_photos E today library s = process_photos E (photos_to_process today library) s"

text \<open>The state at process start: all counters zero, no failures.\<close>

definition initial_state :: "'w \<Rightarrow> 'w state" where
  "initial_state w =
     \<lparr>report = \<lparr>originals_exported = 0, edits_exported = 0, live_photos_exported = 0,
                 duplicates_skipped = 0, duplicates_created = 0\<rparr>,
      failed_files = [], calls = [], world = w\<rparr>"

section \<open>Vocabulary for the claims\<close>

text \<open>The exported counter of a variant: edits if edited, else live if live, else originals.\<close>

definition variant_counter :: "bool \<Rightarrow> bool \<Rightarrow> counters \<Rightarrow> int" where
  "variant_counter is_edited is_live r =
     (if is_edited then edits_exported r
      else if is_live then live_photos_exported r
      else originals_exported r)"

definition exported_total :: "counters \<Rightarrow> int" where
  "exported_total r = originals_exported r + edits_exported r + live_photos_exported r"

fun is_export_call :: "call \<Rightarrow> bool" where
  "is_export_call (Export _ _ _ _ _) = True"
| "is_export_call _ = False"

text \<open>The calls of the export primitive made so far, in order.\<close>

definition export_calls :: "'w state \<Rightarrow> call list" where
  "export_calls s = filter is_export_call (calls s)"

text \<open>How one call changes the counters: as a skipped duplicate, or as an export.\<close>

definition counted_skipped :: "counters \<Rightarrow> counters \<Rightarrow> bool" where
  "counted_skipped r r' = (r' = r\<lparr>duplicates_skipped := duplicates_skipped r + 1\<rparr>)"

definition counted_exported :: "bool \<Rightarrow> bool \<Rightarrow> counters \<Rightarrow> counters \<Rightarrow> bool" where
  "counted_exported e l r r' =
     (duplicates_skipped r' = duplicates_skipped r \<and>
      variant_counter e l r' = variant_counter e l r + 1 \<and>
      exported_total r' = exported_total r + 1 \<and>
      (duplicates_created r' = duplicates_created r \<or>
       duplicates_created r' = duplicates_created r + 1) \<and>
      originals_exported r \<le> originals_exported r' \<and>
      edits_exported r \<le> edits_exported r' \<and>
      live_photos_exported r \<le> live_photos_exported r')"

definition failed_entry_of :: "path \<Rightarrow> photo \<Rightarrow> failed_entry" where
  "failed_entry_of p ph =
     \<lparr>entry_path = p, entry_date = date ph, entry_timestamp = timestamp (date ph)\<rparr>"

section \<open>A concrete world\<close>

text \<open>
  A small file system on which the program can be run: the visible files with their
  content and modification time, and the files that were written but are not visible
  yet, each with the number of seconds until it is.
\<close>

record simfile =
  content :: string
  mtime :: "int option"

record simworld =
  files :: "path \<Rightarrow> simfile option"
  pending :: "(nat \<times> path \<times> string) list"

definition sim_exists :: "simworld \<Rightarrow> path \<Rightarrow> bool" where
  "sim_exists w p = (files w p \<noteq> None)"

definition sim_read :: "simworld \<Rightarrow> path \<Rightarrow> pyexc + string" where
  "sim_read w p = (case files w p of None \<Rightarrow> Inl FileNotFoundError | Some f \<Rightarrow> Inr (content f))"

text \<open>An image decodes to its bytes; a file with no bytes is not an image.\<close>

definition sim_image :: "simworld \<Rightarrow> path \<Rightarrow> pyexc + string" where
  "sim_image w p =
     (case files w p of
        None \<Rightarrow> Inl FileNotFoundError
      | Some f \<Rightarrow> if content f = [] then Inl UnidentifiedImageError else Inr (content f))"

text \<open>A stand-in for the perceptual hash: it sees which bytes are digits.\<close>

definition sim_phash :: "string \<Rightarrow> pyexc + bool list" where
  "sim_phash img = Inr (map is_digit img)"

definition sim_write :: "nat \<Rightarrow> path \<Rightarrow> string \<Rightarrow> simworld \<Rightarrow> simworld" where
  "sim_write delay p c w =
     (if delay = 0 then w\<lparr>files := (files w)(p \<mapsto> \<lparr>content = c, mtime = None\<rparr>)\<rparr>
      else w\<lparr>pending := pending w @ [(delay, p, c)]\<rparr>)"

text \<open>
  Modelled from the spec: the export primitive \<^verbatim>\<open>photo.export\<close> of the photo library,
  which is not part of the repository. Section 6 of the specification: it writes the
  bytes of the source (the edited source when asked for it) to \<open>directory/filename\<close>, and
  writes to the collision-suffixed sibling \<open><stem> (1).<ext>\<close> instead when the target
  exists at call time. \<open>delay\<close> is the number of seconds until the written file is
  visible.
\<close>

definition sim_export ::
  "nat \<Rightarrow> photo \<Rightarrow> path \<Rightarrow> string \<Rightarrow> bool \<Rightarrow> bool \<Rightarrow> simworld \<Rightarrow> pyexc option \<times> simworld" where
  "sim_export delay ph directory filename use_photos_export is_live w =
     (case (if use_photos_export then path_edited ph else path ph) of
        None \<Rightarrow> (Some OtherException, w)
      | Some src \<Rightarrow>
          (case files w src of
             None \<Rightarrow> (Some FileNotFoundError, w)
           | Some f \<Rightarrow>
               (let target = join directory filename;
                    dest = (if files w target \<noteq> None then sibling_spec target else target)
                in (None, sim_write delay dest (content f) w))))"

definition sim_utime :: "path \<Rightarrow> int \<Rightarrow> simworld \<Rightarrow> pyexc option \<times> simworld" where
  "sim_utime p t w =
     (case files w p of
        None \<Rightarrow> (Some FileNotFoundError, w)
      | Some f \<Rightarrow> (None, w\<lparr>files := (files w)(p \<mapsto> f\<lparr>mtime := Some t\<rparr>)\<rparr>))"

text \<open>One second passes: pending files whose delay is over become visible.\<close>

fun sim_tick :: "(nat \<times> path \<times> string) list \<Rightarrow> simworld \<Rightarrow> simworld" where
  "sim_tick [] w = w"
| "sim_tick ((d, p, c) # rest) w =
     (if d \<le> 1 then sim_tick rest (w\<lparr>files := (files w)(p \<mapsto> \<lparr>content = c, mtime = None\<rparr>)\<rparr>)
      else sim_tick rest (w\<lparr>pending := pending w @ [(d - 1, p, c)]\<rparr>))"

definition sim_sleep :: "simworld \<Rightarrow> simworld" where
  "sim_sleep w = sim_tick (pending w) (w\<lparr>pending := []\<rparr>)"

definition sim_makedirs :: "path \<Rightarrow> simworld \<Rightarrow> pyexc option \<times> simworld" where
  "sim_makedirs p w = (None, w)"

definition sim_env :: "nat \<Rightarrow> (simworld, string) env" where
  "sim_env delay =
     \<lparr>os_path_exists = sim_exists, read_bytes = sim_read, sha256_hexdigest = (\<lambda>b. b),
      Image_open = sim_image, heif_image = sim_image, phash = sim_phash,
      photo_export = sim_export delay, os_utime = sim_utime, time_sleep = sim_sleep,
      os_makedirs = sim_makedirs\<rparr>"

text \<open>A world from a list of visible files.\<close>

definition sim_world :: "(path \<times> string) list \<Rightarrow> simworld" where
  "sim_world fs =
     \<lparr>files = map_of (map (\<lambda>(p, c). (p, \<lparr>content = c, mtime = None\<rparr>)) fs), pending = []\<rparr>"

text \<open>A photo for the examples.\<close>

definition sample_date :: pdatetime where
  "sample_date = \<lparr>date_ordinal = 738686, year = 2023, month = 6, timestamp = 1686830400\<rparr>"

definition sample_photo :: photo where
  "sample_photo =
     \<lparr>original_filename = ''IMG_0042.jpg'', path = Some ''/lib/IMG_0042.jpg'',
      path_edited = Some ''/lib/IMG_0042_edit.jpg'', hasadjustments = True, live_photo = False,
      date = sample_date\<rparr>"

definition sample_target :: path where
  "sample_target = ''/Volumes/Archive/Picture Sources 01 RAW/15. iCloud Photos/2023/06/IMG_0042.jpg''"

definition sample_sibling :: path where
  "sample_sibling = ''/Volumes/Archive/Picture Sources 01 RAW/15. iCloud Photos/2023/06/IMG_0042 (1).jpg''"

text \<open>
  Three starting states: nothing exported yet; the original already exported; and the
  target and its sibling both present with other content.
\<close>

definition sample_fresh :: "simworld state" where
  "sample_fresh =
     initial_state (sim_world [(''/lib/IMG_0042.jpg'', ''abc''), (''/lib/IMG_0042_edit.jpg'', ''abd'')])"

definition sample_exported :: "simworld state" where
  "sample_exported =
     initial_state (sim_world [(''/lib/IMG_0042.jpg'', ''abc''), (sample_target, ''abc'')])"

definition sample_conflict :: "simworld state" where
  "sample_conflict =
     initial_state (sim_world [(''/lib/IMG_0042.jpg'', ''new''), (sample_target, ''old1''),
       (sample_sibling, ''old2'')])"

section \<open>Vocabulary for whole runs\<close>

text \<open>The target paths of the variants the driver attempts for a photo when its Original is exported.\<close>

definition variant_targets :: "photo \<Rightarrow> path list" where
  "variant_targets ph =
     original_path ph #
     (if hasadjustments ph then [edited_path ph] else []) @
     (if live_photo ph then [live_photo_path ph] else [])"

text \<open>The source files the export primitive reads for a photo are present.\<close>

definition sources_readable :: "simworld \<Rightarrow> photo \<Rightarrow> bool" where
  "sources_readable w ph =
     ((case path ph of None \<Rightarrow> False | Some src \<Rightarrow> files w src \<noteq> None) \<and>
      (hasadjustments ph \<longrightarrow>
         (case path_edited ph of None \<Rightarrow> False | Some src \<Rightarrow> files w src \<noteq> None)))"

text \<open>The Original's target holds the bytes of the photo's source.\<close>

definition original_in_place :: "simworld \<Rightarrow> photo \<Rightarrow> bool" where
  "original_in_place w ph =
     (case path ph of
        None \<Rightarrow> False
      | Some src \<Rightarrow>
          (case (files w src, files w (original_path ph)) of
             (Some g, Some f) \<Rightarrow> content f = content g
           | _ \<Rightarrow> False))"

text \<open>A first run on the sample photo from the fresh state, and a second run after it.\<close>

definition sample_first_run :: "simworld state" where
  "sample_first_run = snd (export_photos (sim_env 0) 738700 [sample_photo] sample_fresh)"

definition sample_second_run :: "simworld state" where
  "sample_second_run =
     snd (export_photos (sim_env 0) 738700 [sample_photo] (initial_state (world sample_first_run)))"

section \<open>Vocabulary for the call log of a run\<close>

fun is_makedirs_call :: "call \<Rightarrow> bool" where
  "is_makedirs_call (Makedirs _) = True"
| "is_makedirs_call _ = False"

text \<open>The directory creations made so far, in order: the driver makes one per photo it processes.\<close>

definition makedirs_calls :: "'w state \<Rightarrow> call list" where
  "makedirs_calls s = filter is_makedirs_call (calls s)"

text \<open>A call made while one photo is processed, after its directory was created: no
  directory creation, and no export of another photo.\<close>

fun own_call :: "photo \<Rightarrow> call \<Rightarrow> bool" where
  "own_call ph (Makedirs _) = False"
| "own_call ph (Export ph' _ _ _ _) = (ph' = ph)"
| "own_call ph _ = True"

text \<open>A call that, if it is an export, exports one of the given photos.\<close>

fun exports_of :: "photo list \<Rightarrow> call \<Rightarrow> bool" where
  "exports_of phs (Export ph _ _ _ _) = (ph \<in> set phs)"
| "exports_of phs _ = True"

text \<open>
  The calls of the driver for one photo whose processing ends normally: the creation of
  its directory, the existence check of its Original's target, and the calls that follow.
\<close>

definition photo_block :: "photo \<Rightarrow> call list \<Rightarrow> call list" where
  "photo_block ph cs = Makedirs (year_month_path ph) # Exists (original_path ph) # cs"

text \<open>A photo captured before the start date, for the examples.\<close>

definition sample_old_photo :: photo where
  "sample_old_photo =
     \<lparr>original_filename = ''IMG_0001.jpg'', path = Some ''/lib/IMG_0001.jpg'',
      path_edited = None, hasadjustments = False, live_photo = True,
      date = \<lparr>date_ordinal = 738600, year = 2023, month = 3, timestamp = 1679400000\<rparr>\<rparr>"

section \<open>Facts about strings\<close>

lemma lower_append: "lower (a @ b) = lower a @ lower b"
  by (simp add: lower_def)

lemma length_lower: "length (lower s) = length s"
  by (simp add: lower_def)

lemma lower_take: "lower (take n s) = take n (lower s)"
  by (simp add: lower_def take_map)

lemma lower_drop: "lower (drop n s) = drop n (lower s)"
  by (simp add: lower_def drop_map)

lemma endswith_iff: "endswith s suf \<longleftrightarrow> (\<exists>stem. s = stem @ suf)"
proof
  assume "endswith s suf"
  then have "s = take (length s - length suf) s @ suf"
    by (metis append_take_drop_id endswith_def)
  then show "\<exists>stem. s = stem @ suf" ..
next
  assume "\<exists>stem. s = stem @ suf"
  then show "endswith s suf" by (auto simp: endswith_def)
qed

lemma endswith_lower_split:
  assumes "endswith (lower f) suf"
  shows "\<exists>stem e. f = stem @ e \<and> lower e = suf"
proof -
  let ?n = "length f - length suf"
  from assms have "lower (drop ?n f) = suf"
    by (simp add: endswith_def length_lower lower_drop)
  moreover have "f = take ?n f @ drop ?n f" by simp
  ultimately show ?thesis by blast
qed

lemma jpg_or_heic_iff:
  "jpg_or_heic f \<longleftrightarrow> endswith (lower f) ''.jpg'' \<or> endswith (lower f) ''.heic''"
proof
  assume "jpg_or_heic f"
  then obtain stem e where "f = stem @ e" "lower e = ''.jpg'' \<or> lower e = ''.heic''"
    by (auto simp: jpg_or_heic_def)
  then show "endswith (lower f) ''.jpg'' \<or> endswith (lower f) ''.heic''"
    by (auto simp: endswith_iff lower_append)
next
  assume "endswith (lower f) ''.jpg'' \<or> endswith (lower f) ''.heic''"
  then show "jpg_or_heic f"
    unfolding jpg_or_heic_def using endswith_lower_split by blast
qed

lemma ascii_lower_cases:
  "ascii_lower c = c \<or> ascii_lower c \<in> set ''abcdefghijklmnopqrstuvwxyz''"
proof (cases "map_of (zip ''ABCDEFGHIJKLMNOPQRSTUVWXYZ'' ''abcdefghijklmnopqrstuvwxyz'') c")
  case None
  then show ?thesis by (simp add: ascii_lower_def)
next
  case (Some d)
  then have "(c, d) \<in> set (zip ''ABCDEFGHIJKLMNOPQRSTUVWXYZ'' ''abcdefghijklmnopqrstuvwxyz'')"
    by (rule map_of_SomeD)
  then have "d \<in> set ''abcdefghijklmnopqrstuvwxyz''"
    by (rule set_zip_rightD)
  with Some show ?thesis by (simp add: ascii_lower_def)
qed

lemma ascii_lower_dot: "ascii_lower c = CHR ''.'' \<Longrightarrow> c = CHR ''.''"
  using ascii_lower_cases [of c] by auto

lemma ascii_lower_fix:
  "ascii_lower CHR ''.'' = CHR ''.''" "ascii_lower CHR ''M'' = CHR ''m''"
  "ascii_lower CHR ''/'' = CHR ''/''"
  by (simp_all add: ascii_lower_def)

lemma in_lower: "c \<in> set s \<Longrightarrow> ascii_lower c \<in> set (lower s)"
  by (simp add: lower_def)

lemma rfind_last: "c \<notin> set b \<Longrightarrow> rfind (a @ c # b) c = int (length a)"
proof -
  assume h: "c \<notin> set b"
  have "takeWhile (\<lambda>x. x \<noteq> c) (rev b @ c # rev a) = rev b"
    using h by (auto simp: takeWhile_append2 takeWhile_tail)
  then show ?thesis by (simp add: rfind_def)
qed

lemma rfind_absent: "c \<notin> set p \<Longrightarrow> rfind p c = -1"
proof -
  assume "c \<notin> set p"
  then have "takeWhile (\<lambda>x. x \<noteq> c) (rev p) = rev p" by auto
  then have "length (takeWhile (\<lambda>x. x \<noteq> c) (rev p)) = length p" by (metis length_rev)
  then show ?thesis unfolding rfind_def by simp
qed

lemma rfind_lt: "rfind p c < int (length p)"
  by (simp add: rfind_def)

lemma rfind_ge: "- 1 \<le> rfind p c"
proof -
  have "length (takeWhile (\<lambda>x. x \<noteq> c) (rev p)) \<le> length (rev p)"
    by (rule length_takeWhile_le)
  then show ?thesis by (simp add: rfind_def)
qed

lemma splitext_ext:
  assumes "CHR ''/'' \<notin> set stem" "CHR ''/'' \<notin> set e'" "CHR ''.'' \<notin> set e'"
    and "list_ex (\<lambda>c. c \<noteq> CHR ''.'') stem"
  shows "splitext (stem @ CHR ''.'' # e') = (stem, CHR ''.'' # e')"
proof -
  have 1: "rfind (stem @ CHR ''.'' # e') CHR ''.'' = int (length stem)"
    using assms(3) by (rule rfind_last)
  have 2: "rfind (stem @ CHR ''.'' # e') CHR ''/'' = -1"
    using assms(1,2) by (simp add: rfind_absent)
  show ?thesis using assms(4) by (simp add: splitext_def 1 2)
qed

lemma take_8: "take 8 s = take 4 s @ take 4 (drop 4 s)"
  using take_add [of 4 4 s] by simp

lemma img_token_length: "img_token m \<Longrightarrow> length m = 8"
  by (auto simp: img_token_def)

lemma img_at_iff: "img_at s \<longleftrightarrow> (\<exists>m post. s = m @ post \<and> img_token m)"
proof
  assume h: "img_at s"
  then have "img_token (take 8 s)"
    unfolding img_token_def img_at_def take_8 by blast
  moreover have "s = take 8 s @ drop 8 s" by simp
  ultimately show "\<exists>m post. s = m @ post \<and> img_token m" by blast
next
  assume "\<exists>m post. s = m @ post \<and> img_token m"
  then show "img_at s" by (auto simp: img_token_def img_at_def)
qed

lemma img_at_take: "img_at s \<Longrightarrow> img_token (take 8 s)"
  unfolding img_token_def img_at_def take_8 by blast

lemma re_search_img_None: "re_search_img f = None \<Longrightarrow> \<not> img_at (drop i f)"
proof (induction f arbitrary: i)
  case Nil
  then show ?case by (simp add: img_at_def)
next
  case (Cons c cs)
  then show ?case by (cases i) (auto split: if_splits)
qed

lemma re_search_img_Some:
  "re_search_img f = Some m \<Longrightarrow>
     \<exists>pre post. f = pre @ m @ post \<and> img_token m \<and> (\<forall>i<length pre. \<not> img_at (drop i f))"
proof (induction f)
  case Nil
  then show ?case by simp
next
  case (Cons c cs)
  show ?case
  proof (cases "img_at (c # cs)")
    case True
    with Cons.prems have m: "m = take 8 (c # cs)" by simp
    have "c # cs = [] @ m @ drop 8 (c # cs)" unfolding m by simp
    moreover have "img_token m" unfolding m using True by (rule img_at_take)
    ultimately show ?thesis by (metis length_0_conv less_nat_zero_code list.size(3))
  next
    case False
    with Cons.prems have "re_search_img cs = Some m" by simp
    from Cons.IH [OF this] obtain pre post where
      p: "cs = pre @ m @ post" "img_token m" "\<forall>i<length pre. \<not> img_at (drop i cs)" by blast
    have "\<forall>i<length (c # pre). \<not> img_at (drop i (c # cs))"
    proof (intro allI impI)
      fix i assume "i < length (c # pre)"
      then show "\<not> img_at (drop i (c # cs))"
        using False p(3) by (cases i) auto
    qed
    moreover have "c # cs = (c # pre) @ m @ post" using p(1) by simp
    ultimately show ?thesis using p(2) by blast
  qed
qed


lemma ext_shape:
  assumes "lower e = ''.jpg'' \<or> lower e = ''.heic''"
  shows "\<exists>e'. e = CHR ''.'' # e' \<and> CHR ''.'' \<notin> set e' \<and> CHR ''M'' \<notin> set e"
proof -
  from assms obtain c e' where e: "e = c # e'" and c: "ascii_lower c = CHR ''.''"
    and e': "lower e' = ''jpg'' \<or> lower e' = ''heic''"
    by (auto simp: lower_def map_eq_Cons_conv)
  from c have "c = CHR ''.''" by (rule ascii_lower_dot)
  moreover have "CHR ''.'' \<notin> set e'"
  proof
    assume "CHR ''.'' \<in> set e'"
    then have "ascii_lower CHR ''.'' \<in> set (lower e')" by (rule in_lower)
    with e' show False by (auto simp: ascii_lower_fix)
  qed
  moreover have "CHR ''M'' \<notin> set e"
  proof
    assume "CHR ''M'' \<in> set e"
    then have "ascii_lower CHR ''M'' \<in> set (lower e)" by (rule in_lower)
    with assms show False by (auto simp: ascii_lower_fix)
  qed
  ultimately show ?thesis using e by blast
qed

lemma img_token_M: "img_token m \<Longrightarrow> CHR ''M'' \<in> set m"
  by (auto simp: img_token_def)

lemma splitext_jpg_heic:
  assumes slash: "CHR ''/'' \<notin> set f" and ext: "jpg_or_heic f" and tok: "has_img_token f"
  shows "\<exists>stem e. f = stem @ e \<and> splitext f = (stem, e) \<and>
           (lower e = ''.jpg'' \<or> lower e = ''.heic'')"
proof -
  from ext obtain stem e where f: "f = stem @ e" and e: "lower e = ''.jpg'' \<or> lower e = ''.heic''"
    by (auto simp: jpg_or_heic_def)
  from ext_shape [OF e] obtain e' where
    e': "e = CHR ''.'' # e'" "CHR ''.'' \<notin> set e'" "CHR ''M'' \<notin> set e" by blast
  from tok obtain pre m post where "f = pre @ m @ post" "img_token m"
    by (auto simp: has_img_token_def)
  then have "CHR ''M'' \<in> set f" using img_token_M by fastforce
  with f e'(3) have "CHR ''M'' \<in> set stem" by auto
  then have "list_ex (\<lambda>c. c \<noteq> CHR ''.'') stem" by (auto simp: list_ex_iff)
  moreover have "CHR ''/'' \<notin> set stem" "CHR ''/'' \<notin> set e'" using slash f e'(1) by auto
  ultimately have "splitext (stem @ CHR ''.'' # e') = (stem, CHR ''.'' # e')"
    using e'(2) by (simp add: splitext_ext)
  with f e e'(1) show ?thesis by blast
qed

lemma canonical_name_match: "canonical_name f \<Longrightarrow> re_match_canonical f"
proof -
  assume "canonical_name f"
  then obtain p d e where f: "f = p @ d @ e" and p: "lower p = ''img_''" and d: "length d = 4"
    "list_all is_digit d" and e: "lower e = ''.jpg'' \<or> lower e = ''.heic''"
    by (auto simp: canonical_name_def)
  have "length (lower p) = length ''img_''" using p by simp
  then have lp: "length p = 4" by (simp add: length_lower)
  show ?thesis using p d e lp unfolding re_match_canonical_def f by auto
qed

lemma match_canonical_name:
  assumes "re_match_canonical f" and "jpg_or_heic f"
  shows "canonical_name f"
proof -
  have f: "f = take 4 f @ take 4 (drop 4 f) @ drop 8 f"
    by (metis append_take_drop_id take_8 append.assoc)
  have "lower (drop 8 f) \<noteq> ''.jpg'' @ [CHR 0x0A] \<and> lower (drop 8 f) \<noteq> ''.heic'' @ [CHR 0x0A]"
  proof -
    from assms(2) obtain stem where "lower f = stem @ ''.jpg'' \<or> lower f = stem @ ''.heic''"
      by (auto simp: jpg_or_heic_iff endswith_iff)
    then have l: "last (lower f) = CHR ''g'' \<or> last (lower f) = CHR ''c''" by auto
    have "lower f = take 8 (lower f) @ lower (drop 8 f)" by (simp add: lower_drop)
    then have "lower (drop 8 f) \<noteq> [] \<Longrightarrow> last (lower f) = last (lower (drop 8 f))"
      by (metis last_appendR)
    with l show ?thesis by auto
  qed
  with assms(1) have "lower (drop 8 f) = ''.jpg'' \<or> lower (drop 8 f) = ''.heic''"
    by (auto simp: re_match_canonical_def)
  with assms(1) f show ?thesis unfolding canonical_name_def re_match_canonical_def by blast
qed


lemma has_img_token_search: "has_img_token f \<longleftrightarrow> re_search_img f \<noteq> None"
proof
  assume "has_img_token f"
  then obtain pre m post where f: "f = pre @ m @ post" and m: "img_token m"
    by (auto simp: has_img_token_def)
  have "img_at (drop (length pre) f)" unfolding f using m by (auto simp: img_at_iff)
  then show "re_search_img f \<noteq> None" using re_search_img_None by blast
next
  assume "re_search_img f \<noteq> None"
  then obtain m where "re_search_img f = Some m" by auto
  from re_search_img_Some [OF this] show "has_img_token f"
    unfolding has_img_token_def by blast
qed

lemma re_search_img_first: "re_search_img f = Some m \<Longrightarrow> first_img_token f m"
proof -
  assume "re_search_img f = Some m"
  from re_search_img_Some [OF this] obtain pre post where
    p: "f = pre @ m @ post" "img_token m" "\<forall>i<length pre. \<not> img_at (drop i f)" by blast
  have "length pre \<le> length pre'" if "f = pre' @ m' @ post'" "img_token m'" for pre' m' post'
  proof -
    have "img_at (drop (length pre') f)" using that by (auto simp: img_at_iff)
    with p(3) show ?thesis by (meson not_le_imp_less)
  qed
  with p(1,2) show ?thesis unfolding first_img_token_def by blast
qed

section \<open>Claims about file names\<close>

text \<open>
  Claim C5. Filename canonicalisation (\<open>extract_img_pattern\<close>): a name that does not end
  in \<open>.jpg\<close> or \<open>.heic\<close> (in any letter case) is returned unchanged; a canonical name
  (\<open>IMG_\<close>, four digits, \<open>.jpg\<close> or \<open>.heic\<close>, in any letter case) is returned unchanged;
  otherwise, when an \<open>IMG_\<close> token occurs in the name, the result is the leftmost such
  token followed by the extension that \<open>splitext\<close> gives; a name with no token is
  returned unchanged. For a name without a slash that extension is the final \<open>.jpg\<close> or
  \<open>.heic\<close> of the name in its own letter case, and a name whose \<open>splitext\<close> extension is
  not \<open>.jpg\<close> or \<open>.heic\<close> is unchanged. The three examples of the specification hold.
\<close>

theorem extract_img_pattern_spec:
  "(\<not> jpg_or_heic f \<longrightarrow> extract_img_pattern f = f) \<and>
   (canonical_name f \<longrightarrow> extract_img_pattern f = f) \<and>
   (jpg_or_heic f \<and> \<not> canonical_name f \<and> has_img_token f \<longrightarrow>
      (\<exists>m. first_img_token f m \<and> extract_img_pattern f = m @ snd (splitext f))) \<and>
   (\<not> has_img_token f \<longrightarrow> extract_img_pattern f = f) \<and>
   (CHR ''/'' \<notin> set f \<and> jpg_or_heic f \<and> has_img_token f \<longrightarrow>
      endswith f (snd (splitext f)) \<and>
      (lower (snd (splitext f)) = ''.jpg'' \<or> lower (snd (splitext f)) = ''.heic'')) \<and>
   (CHR ''/'' \<notin> set f \<and> lower (snd (splitext f)) \<noteq> ''.jpg'' \<and>
      lower (snd (splitext f)) \<noteq> ''.heic'' \<longrightarrow> extract_img_pattern f = f) \<and>
   extract_img_pattern ''2024_IMG_5678_extra.jpg'' = ''IMG_5678.jpg'' \<and>
   extract_img_pattern ''IMG_1234.jpg'' = ''IMG_1234.jpg'' \<and>
   extract_img_pattern ''vacation.png'' = ''vacation.png''"
proof -
  have c1: "\<not> jpg_or_heic f \<longrightarrow> extract_img_pattern f = f"
    by (simp add: jpg_or_heic_iff extract_img_pattern_def)
  have c2: "canonical_name f \<longrightarrow> extract_img_pattern f = f"
    by (auto simp: extract_img_pattern_def dest: canonical_name_match)
  have c3: "jpg_or_heic f \<and> \<not> canonical_name f \<and> has_img_token f \<longrightarrow>
      (\<exists>m. first_img_token f m \<and> extract_img_pattern f = m @ snd (splitext f))"
  proof (intro impI, elim conjE)
    assume h: "jpg_or_heic f" "\<not> canonical_name f" "has_img_token f"
    from h(1,2) have "\<not> re_match_canonical f" using match_canonical_name by blast
    moreover from h(3) obtain m where m: "re_search_img f = Some m"
      by (auto simp: has_img_token_search)
    ultimately have "extract_img_pattern f = m @ snd (splitext f)"
      using h(1) by (simp add: extract_img_pattern_def jpg_or_heic_iff)
    with re_search_img_first [OF m] show
      "\<exists>m. first_img_token f m \<and> extract_img_pattern f = m @ snd (splitext f)" by blast
  qed
  have c4: "\<not> has_img_token f \<longrightarrow> extract_img_pattern f = f"
    by (auto simp: has_img_token_search extract_img_pattern_def)
  have c5: "CHR ''/'' \<notin> set f \<and> jpg_or_heic f \<and> has_img_token f \<longrightarrow>
      endswith f (snd (splitext f)) \<and>
      (lower (snd (splitext f)) = ''.jpg'' \<or> lower (snd (splitext f)) = ''.heic'')"
  proof (intro impI, elim conjE)
    assume "CHR ''/'' \<notin> set f" "jpg_or_heic f" "has_img_token f"
    from splitext_jpg_heic [OF this] obtain stem e where
      "f = stem @ e" "splitext f = (stem, e)" "lower e = ''.jpg'' \<or> lower e = ''.heic''"
      by blast
    then show "endswith f (snd (splitext f)) \<and>
      (lower (snd (splitext f)) = ''.jpg'' \<or> lower (snd (splitext f)) = ''.heic'')"
      by (auto simp: endswith_iff)
  qed
  have c6: "CHR ''/'' \<notin> set f \<and> lower (snd (splitext f)) \<noteq> ''.jpg'' \<and>
      lower (snd (splitext f)) \<noteq> ''.heic'' \<longrightarrow> extract_img_pattern f = f"
    using c1 c4 c5 by blast
  have e1: "extract_img_pattern ''2024_IMG_5678_extra.jpg'' = ''IMG_5678.jpg''"
    by (simp add: extract_img_pattern_def endswith_def lower_def ascii_lower_def
        re_match_canonical_def img_at_def is_digit_def splitext_def rfind_def)
  have e2: "extract_img_pattern ''IMG_1234.jpg'' = ''IMG_1234.jpg''"
    by (simp add: extract_img_pattern_def endswith_def lower_def ascii_lower_def
        re_match_canonical_def is_digit_def)
  have e3: "extract_img_pattern ''vacation.png'' = ''vacation.png''"
    by (simp add: extract_img_pattern_def endswith_def lower_def ascii_lower_def)
  from c1 c2 c3 c4 c5 c6 e1 e2 e3 show ?thesis by blast
qed

theorem extract_img_pattern_spec_witness:
  "jpg_or_heic ''2024_IMG_5678_extra.JPG'' \<and> \<not> canonical_name ''2024_IMG_5678_extra.JPG'' \<and>
   has_img_token ''2024_IMG_5678_extra.JPG'' \<and> CHR ''/'' \<notin> set ''2024_IMG_5678_extra.JPG'' \<and>
   (\<exists>m. first_img_token ''2024_IMG_5678_extra.JPG'' m \<and>
      extract_img_pattern ''2024_IMG_5678_extra.JPG'' = m @ snd (splitext ''2024_IMG_5678_extra.JPG'')) \<and>
   lower (snd (splitext ''2024_IMG_5678_extra.JPG'')) = ''.jpg'' \<and>
   extract_img_pattern ''2024_IMG_5678_extra.JPG'' = ''IMG_5678.JPG'' \<and>
   canonical_name ''img_1234.HEIC'' \<and> extract_img_pattern ''img_1234.HEIC'' = ''img_1234.HEIC'' \<and>
   \<not> jpg_or_heic ''IMG_1234_x.png'' \<and> extract_img_pattern ''IMG_1234_x.png'' = ''IMG_1234_x.png'' \<and>
   \<not> has_img_token ''img_1234_x.jpg'' \<and> extract_img_pattern ''img_1234_x.jpg'' = ''img_1234_x.jpg''"
proof -
  let ?f = "''2024_IMG_5678_extra.JPG''"
  have j: "jpg_or_heic ?f"
    by (simp add: jpg_or_heic_iff endswith_def lower_def ascii_lower_def)
  have "\<not> re_match_canonical ?f"
    by (simp add: re_match_canonical_def lower_def ascii_lower_def)
  then have nc: "\<not> canonical_name ?f" using canonical_name_match by blast
  have t: "has_img_token ?f"
    by (simp add: has_img_token_search img_at_def is_digit_def)
  have sl: "CHR ''/'' \<notin> set ?f" by simp
  have sp: "lower (snd (splitext ?f)) = ''.jpg''"
    by (simp add: splitext_def rfind_def lower_def ascii_lower_def)
  have ex: "extract_img_pattern ?f = ''IMG_5678.JPG''"
    by (simp add: extract_img_pattern_def endswith_def lower_def ascii_lower_def
        re_match_canonical_def img_at_def is_digit_def splitext_def rfind_def)
  have c: "canonical_name ''img_1234.HEIC''"
  proof -
    have "''img_1234.HEIC'' = ''img_'' @ ''1234'' @ ''.HEIC'' \<and> lower ''img_'' = ''img_'' \<and>
      length ''1234'' = 4 \<and> list_all is_digit ''1234'' \<and> lower ''.HEIC'' = ''.heic''"
      by (simp add: lower_def ascii_lower_def is_digit_def)
    then show ?thesis unfolding canonical_name_def by blast
  qed
  have nj: "\<not> jpg_or_heic ''IMG_1234_x.png''"
    by (simp add: jpg_or_heic_iff endswith_def lower_def ascii_lower_def)
  have nt: "\<not> has_img_token ''img_1234_x.jpg''"
    by (simp add: has_img_token_search img_at_def)
  note T = extract_img_pattern_spec [of ?f]
  from T have "jpg_or_heic ?f \<and> \<not> canonical_name ?f \<and> has_img_token ?f \<longrightarrow>
      (\<exists>m. first_img_token ?f m \<and> extract_img_pattern ?f = m @ snd (splitext ?f))"
    by (elim conjE)
  with j nc t have a3: "\<exists>m. first_img_token ?f m \<and> extract_img_pattern ?f = m @ snd (splitext ?f)"
    by (simp only: simp_thms)
  from extract_img_pattern_spec [of "''img_1234.HEIC''"]
  have "canonical_name ''img_1234.HEIC'' \<longrightarrow> extract_img_pattern ''img_1234.HEIC'' = ''img_1234.HEIC''"
    by (elim conjE)
  with c have a2: "extract_img_pattern ''img_1234.HEIC'' = ''img_1234.HEIC''"
    by (simp only: simp_thms)
  from extract_img_pattern_spec [of "''IMG_1234_x.png''"]
  have "\<not> jpg_or_heic ''IMG_1234_x.png'' \<longrightarrow> extract_img_pattern ''IMG_1234_x.png'' = ''IMG_1234_x.png''"
    by (elim conjE)
  with nj have a1: "extract_img_pattern ''IMG_1234_x.png'' = ''IMG_1234_x.png''"
    by (simp only: simp_thms)
  from extract_img_pattern_spec [of "''img_1234_x.jpg''"]
  have "\<not> has_img_token ''img_1234_x.jpg'' \<longrightarrow> extract_img_pattern ''img_1234_x.jpg'' = ''img_1234_x.jpg''"
    by (elim conjE)
  with nt have a4: "extract_img_pattern ''img_1234_x.jpg'' = ''img_1234_x.jpg''"
    by (simp only: simp_thms)
  show ?thesis
    by (intro conjI j nc t sl a3 sp ex c a2 nj a1 nt a4)
qed

text \<open>
  Claim C3. The sibling path of line 167 replaces every dot of the file name by \<open> (1).\<close>:
  for the target \<open>IMG_1234.jpg\<close> it is \<open>IMG_1234 (1).jpg\<close>, but a file name with two dots
  gains two insertions, where the specification's sibling has one, before the last dot.
\<close>

theorem duplicate_path_of_every_dot:
  "duplicate_path_of ''/Volumes/Archive/2023/06/IMG_1234.jpg''
     = ''/Volumes/Archive/2023/06/IMG_1234 (1).jpg'' \<and>
   duplicate_path_of ''/Volumes/Archive/2023/06/vacation.2023.jpg''
     = ''/Volumes/Archive/2023/06/vacation (1).2023 (1).jpg'' \<and>
   sibling_spec ''/Volumes/Archive/2023/06/vacation.2023.jpg''
     = ''/Volumes/Archive/2023/06/vacation.2023 (1).jpg'' \<and>
   duplicate_path_of ''/Volumes/Archive/2023/06/vacation.2023.jpg''
     \<noteq> sibling_spec ''/Volumes/Archive/2023/06/vacation.2023.jpg''"
  by (simp add: duplicate_path_of_def sibling_spec_def join_def dirname_def basename_def
      replace_dot_def splitext_def rfind_def rstrip_slash_def startswith_def endswith_def)

section \<open>What the helpers leave unchanged\<close>

lemma log_call_simps [simp]:
  "report (log_call c s) = report s" "failed_files (log_call c s) = failed_files s"
  "world (log_call c s) = world s" "calls (log_call c s) = calls s @ [c]"
  by (simp_all add: log_call_def)

lemma export_calls_log:
  "export_calls (log_call c s) = export_calls s @ (if is_export_call c then [c] else [])"
  by (simp add: export_calls_def)

lemma export_calls_world [simp]: "export_calls (s\<lparr>world := w\<rparr>) = export_calls s"
  by (simp add: export_calls_def)

lemma export_calls_report [simp]: "export_calls (s\<lparr>report := r\<rparr>) = export_calls s"
  by (simp add: export_calls_def)

lemma export_calls_failed [simp]: "export_calls (s\<lparr>failed_files := f\<rparr>) = export_calls s"
  by (simp add: export_calls_def)

lemma set_file_timestamp_frame:
  assumes "set_file_timestamp E p d s = (r, s')"
  shows "report s' = report s" "failed_files s' = failed_files s"
    "export_calls s' = export_calls s"
  using assms
  by (auto simp: set_file_timestamp_def Let_def export_calls_log split: prod.splits)

lemma poll_timestamp_frame:
  "poll_timestamp E n p ph s = (r, s') \<Longrightarrow>
     report s' = report s \<and> failed_files s' = failed_files s \<and> export_calls s' = export_calls s"
proof (induction n arbitrary: s)
  case 0
  then show ?case by simp
next
  case (Suc n)
  show ?case
  proof (cases "os_path_exists E (world s) p")
    case True
    with Suc.prems have "set_file_timestamp E p (date ph) (log_call (Exists p) s) = (r, s')"
      by (simp add: check_exists_def)
    from set_file_timestamp_frame [OF this] show ?thesis by (simp add: export_calls_log)
  next
    case False
    with Suc.prems have
      "poll_timestamp E n p ph
         ((log_call Sleep (log_call (Exists p) s))\<lparr>world := time_sleep E (world s)\<rparr>) = (r, s')"
      by (simp add: check_exists_def)
    from Suc.IH [OF this] show ?thesis by (simp add: export_calls_log)
  qed
qed

lemma append_failed_simps [simp]:
  "report (append_failed p ph s) = report s"
  "failed_files (append_failed p ph s) = failed_files s @
     [\<lparr>entry_path = p, entry_date = date ph, entry_timestamp = timestamp (date ph)\<rparr>]"
  "export_calls (append_failed p ph s) = export_calls s"
  by (simp_all add: append_failed_def)

lemma sync_timestamp_retry_frame:
  "report (sync_timestamp_retry E p ph s) = report s \<and>
   export_calls (sync_timestamp_retry E p ph s) = export_calls s \<and>
   (failed_files (sync_timestamp_retry E p ph s) = failed_files s \<or>
    failed_files (sync_timestamp_retry E p ph s) = failed_files s @
      [\<lparr>entry_path = p, entry_date = date ph, entry_timestamp = timestamp (date ph)\<rparr>])"
proof -
  obtain r s' where h: "poll_timestamp E 5 p ph s = (r, s')" by (cases "poll_timestamp E 5 p ph s")
  from poll_timestamp_frame [OF h] show ?thesis
    by (auto simp: sync_timestamp_retry_def h split: option.splits pyexc.splits)
qed

lemma sync_timestamp_once_frame:
  "report (sync_timestamp_once E p ph s) = report s \<and>
   export_calls (sync_timestamp_once E p ph s) = export_calls s \<and>
   (failed_files (sync_timestamp_once E p ph s) = failed_files s \<or>
    failed_files (sync_timestamp_once E p ph s) = failed_files s @
      [\<lparr>entry_path = p, entry_date = date ph, entry_timestamp = timestamp (date ph)\<rparr>])"
proof -
  obtain r s' where h: "set_file_timestamp E p (date ph) s = (r, s')"
    by (cases "set_file_timestamp E p (date ph) s")
  from set_file_timestamp_frame [OF h] show ?thesis
    by (auto simp: sync_timestamp_once_def h split: option.splits pyexc.splits)
qed

lemma call_export_frame:
  assumes "call_export E ph p e l s = (r, s')"
  shows "report s' = report s" "failed_files s' = failed_files s"
    "export_calls s' = export_calls s @ [Export ph (dirname p) (basename p) e l]"
  using assms
  by (auto simp: call_export_def Let_def export_calls_log split: prod.splits)

lemma update_report_simps [simp]:
  "failed_files (update_report e l s) = failed_files s"
  "export_calls (update_report e l s) = export_calls s"
  "world (update_report e l s) = world s"
  by (simp_all add: update_report_def)

lemma update_report_counters:
  "variant_counter e l (report (update_report e l s)) = variant_counter e l (report s) + 1"
  "exported_total (report (update_report e l s)) = exported_total (report s) + 1"
  "duplicates_skipped (report (update_report e l s)) = duplicates_skipped (report s)"
  "duplicates_created (report (update_report e l s)) = duplicates_created (report s)"
  "originals_exported (report (update_report e l s)) \<ge> originals_exported (report s)"
  "edits_exported (report (update_report e l s)) \<ge> edits_exported (report s)"
  "live_photos_exported (report (update_report e l s)) \<ge> live_photos_exported (report s)"
  by (simp_all add: update_report_def variant_counter_def exported_total_def)

lemma skip_duplicate_simps [simp]:
  "failed_files (skip_duplicate s) = failed_files s"
  "export_calls (skip_duplicate s) = export_calls s"
  "world (skip_duplicate s) = world s"
  "report (skip_duplicate s) = (report s)\<lparr>duplicates_skipped := duplicates_skipped (report s) + 1\<rparr>"
  by (simp_all add: skip_duplicate_def)

section \<open>The branches of the Duplicate Reconciler\<close>

lemma counted_exported_update:
  "duplicates_skipped (report s1) = duplicates_skipped r \<Longrightarrow>
   originals_exported (report s1) = originals_exported r \<Longrightarrow>
   edits_exported (report s1) = edits_exported r \<Longrightarrow>
   live_photos_exported (report s1) = live_photos_exported r \<Longrightarrow>
   duplicates_created (report s1) = duplicates_created r \<or>
     duplicates_created (report s1) = duplicates_created r + 1 \<Longrightarrow>
   counted_exported e l r (report (update_report e l s1))"
  by (auto simp: counted_exported_def update_report_def variant_counter_def exported_total_def)

lemma after_mismatch_char:
  assumes "after_mismatch E ph p dp pre e l s = (r, s')"
  shows "r = Inr False \<and> counted_exported e l (report s) (report s') \<and>
         export_calls s' = export_calls s \<and>
         (failed_files s' = failed_files s \<or>
          failed_files s' = failed_files s @ [failed_entry_of p ph] \<or>
          failed_files s' = failed_files s @ [failed_entry_of dp ph])"
proof -
  define s1 where "s1 = log_call (Exists dp) s"
  define created where "created = (os_path_exists E (world s) dp \<and> \<not> pre)"
  define s2 where "s2 = (if created
                then s1\<lparr>report := (report s1)\<lparr>duplicates_created := duplicates_created (report s1) + 1\<rparr>\<rparr>
                else s1)"
  define p' where "p' = (if created then dp else p)"
  define s3 where "s3 = sync_timestamp_retry E p' ph s2"
  have r: "r = Inr False" and s': "s' = update_report e l s3"
    using assms unfolding after_mismatch_def check_exists_def s1_def created_def s2_def p'_def s3_def
    by (simp_all add: Let_def)
  have f: "report s3 = report s2" "export_calls s3 = export_calls s2"
    "failed_files s3 = failed_files s2 \<or> failed_files s3 = failed_files s2 @ [failed_entry_of p' ph]"
    using sync_timestamp_retry_frame [of E p' ph s2] unfolding s3_def failed_entry_of_def by auto
  have s2f: "failed_files s2 = failed_files s" "export_calls s2 = export_calls s"
    unfolding s2_def s1_def by (simp_all add: export_calls_log)
  have "counted_exported e l (report s) (report s')"
    unfolding s' by (rule counted_exported_update) (simp_all add: f(1) s2_def s1_def)
  moreover have "export_calls s' = export_calls s" unfolding s' by (simp add: f(2) s2f)
  moreover have "failed_files s' = failed_files s \<or>
          failed_files s' = failed_files s @ [failed_entry_of p ph] \<or>
          failed_files s' = failed_files s @ [failed_entry_of dp ph]"
    using f(3) unfolding s' s2f p'_def by auto
  ultimately show ?thesis using r by blast
qed


lemma not_exists_branch:
  assumes ne: "\<not> os_path_exists E (world s) p"
    and run: "export_photo_variant E ph p e l s = (r, s')"
  shows "export_calls s' = export_calls s @ [Export ph (dirname p) (basename p) e l] \<and>
         ((\<exists>ex. r = Inl ex \<and> report s' = report s \<and> failed_files s' = failed_files s) \<or>
          (r = Inr False \<and> counted_exported e l (report s) (report s') \<and>
           (failed_files s' = failed_files s \<or>
            failed_files s' = failed_files s @ [failed_entry_of p ph])))"
proof -
  define s1 where "s1 = log_call (Exists p) s"
  obtain x s2 where c: "call_export E ph p e l s1 = (x, s2)"
    by (cases "call_export E ph p e l s1")
  note fr = call_export_frame [OF c]
  have s1f: "export_calls s1 = export_calls s" "report s1 = report s"
    "failed_files s1 = failed_files s"
    unfolding s1_def by (simp_all add: export_calls_log)
  show ?thesis
  proof (cases x)
    case (Some ex)
    with run ne c have "r = Inl ex" "s' = s2"
      by (simp_all add: export_photo_variant_def check_exists_def s1_def)
    then show ?thesis using fr s1f by simp
  next
    case None
    with run ne c have r: "r = Inr False"
      and s': "s' = update_report e l (sync_timestamp_once E p ph s2)"
      by (simp_all add: export_photo_variant_def check_exists_def s1_def)
    note sy = sync_timestamp_once_frame [of E p ph s2]
    have "counted_exported e l (report s) (report s')"
      unfolding s' by (rule counted_exported_update) (simp_all add: sy fr s1f)
    moreover have "export_calls s' = export_calls s @ [Export ph (dirname p) (basename p) e l]"
      unfolding s' using sy fr s1f by simp
    moreover have "failed_files s' = failed_files s \<or>
            failed_files s' = failed_files s @ [failed_entry_of p ph]"
      unfolding s' using sy fr s1f by (auto simp: failed_entry_of_def)
    ultimately show ?thesis using r by blast
  qed
qed

lemma exists_branch:
  assumes ex: "os_path_exists E (world s) p"
    and run: "export_photo_variant E ph p e l s = (r, s')"
  shows "(\<exists>x. r = Inl x \<and> report s' = report s \<and> failed_files s' = failed_files s) \<or>
         (r = Inr True \<and> counted_skipped (report s) (report s') \<and>
          failed_files s' = failed_files s \<and> export_calls s' = export_calls s) \<or>
         (r = Inr False \<and> counted_exported e l (report s) (report s') \<and>
          (failed_files s' = failed_files s \<or>
           failed_files s' = failed_files s @ [failed_entry_of p ph] \<or>
           failed_files s' = failed_files s @ [failed_entry_of (duplicate_path_of p) ph]))"
proof -
  define s1 where "s1 = log_call (Exists p) s"
  define pp where "pp = (if e then path_edited ph else path ph)"
  define dp where "dp = duplicate_path_of p"
  define s2 where "s2 = log_call (Exists dp) s1"
  have s1f: "export_calls s1 = export_calls s" "report s1 = report s"
    "failed_files s1 = failed_files s" "world s1 = world s"
    unfolding s1_def by (simp_all add: export_calls_log)
  have s2f: "export_calls s2 = export_calls s" "report s2 = report s"
    "failed_files s2 = failed_files s" "world s2 = world s"
    unfolding s2_def using s1f by (simp_all add: export_calls_log)
  note unf = export_photo_variant_def check_exists_def Let_def
  consider (err) x where "file_hashes_match_arg E (world s) pp p = Inl x"
    | (same) "file_hashes_match_arg E (world s) pp p = Inr True"
    | (diff) "file_hashes_match_arg E (world s) pp p = Inr False"
    by (cases "file_hashes_match_arg E (world s) pp p") auto
  then show ?thesis
  proof cases
    case err
    with run ex have "r = Inl x" "s' = s1"
      unfolding unf s1_def pp_def by simp_all
    then show ?thesis using s1f by simp
  next
    case same
    with run ex have "r = Inr True" "s' = skip_duplicate s1"
      unfolding unf s1_def pp_def by simp_all
    then show ?thesis using s1f by (simp add: counted_skipped_def)
  next
    case diff
    show ?thesis
    proof (cases "os_path_exists E (world s) dp")
      case False
      obtain x s3 where c: "call_export E ph p e l s2 = (x, s3)"
        by (cases "call_export E ph p e l s2")
      note fr = call_export_frame [OF c]
      show ?thesis
      proof (cases x)
        case (Some exc)
        with run ex diff False c have "r = Inl exc" "s' = s3"
          unfolding unf s1_def s2_def pp_def dp_def by simp_all
        then show ?thesis using fr s2f by simp
      next
        case None
        with run ex diff False c have "after_mismatch E ph p dp False e l s3 = (r, s')"
          unfolding unf s1_def s2_def pp_def dp_def by simp
        from after_mismatch_char [OF this] show ?thesis
          unfolding dp_def counted_exported_def using fr(1,2) s2f by auto
      qed
    next
      case True
      consider (err2) x where "file_hashes_match_arg E (world s) pp dp = Inl x"
        | (same2) "file_hashes_match_arg E (world s) pp dp = Inr True"
        | (diff2) "file_hashes_match_arg E (world s) pp dp = Inr False"
        by (cases "file_hashes_match_arg E (world s) pp dp") auto
      then show ?thesis
      proof cases
        case err2
        with run ex diff True have "r = Inl x" "s' = s2"
          unfolding unf s1_def s2_def pp_def dp_def by simp_all
        then show ?thesis using s2f by simp
      next
        case same2
        with run ex diff True have "r = Inr True" "s' = skip_duplicate s2"
          unfolding unf s1_def s2_def pp_def dp_def by simp_all
        then show ?thesis using s2f by (simp add: counted_skipped_def)
      next
        case diff2
        with run ex diff True have "after_mismatch E ph p dp True e l s2 = (r, s')"
          unfolding unf s1_def s2_def pp_def dp_def by simp
        from after_mismatch_char [OF this] show ?thesis
          unfolding dp_def counted_exported_def using s2f by auto
      qed
    qed
  qed
qed

section \<open>The retry loop\<close>

text \<open>
  The loop of lines 190 to 204, in a world that moves on by \<open>time_sleep\<close>. When the file
  is first visible at check number \<open>k + 1\<close>, with \<open>k < 5\<close>, and setting the time raises
  nothing, the loop makes exactly \<open>k + 1\<close> existence checks with a pause after each of
  the first \<open>k\<close>, sets the time once, and nothing is appended to the failure list. When
  the file is visible at none of the five checks, each check is followed by a pause and
  an entry with the path and the capture date is appended.
\<close>

lemma poll_timestamp_found:
  assumes "k < n"
    and "\<forall>i<k. \<not> os_path_exists E ((time_sleep E ^^ i) (world s)) p"
    and "os_path_exists E ((time_sleep E ^^ k) (world s)) p"
  shows "poll_timestamp E n p ph s =
           set_file_timestamp E p (date ph)
             (s\<lparr>calls := calls s @ concat (replicate k [Exists p, Sleep]) @ [Exists p],
                world := (time_sleep E ^^ k) (world s)\<rparr>)"
  using assms
proof (induction k arbitrary: n s)
  case 0
  then obtain m where n: "n = Suc m" by (cases n) auto
  from 0 show ?case unfolding n by (simp add: check_exists_def log_call_def)
next
  case (Suc k)
  then obtain m where n: "n = Suc m" by (cases n) auto
  let ?s1 = "(log_call Sleep (log_call (Exists p) s))\<lparr>world := time_sleep E (world s)\<rparr>"
  from Suc.prems(2) have no: "\<not> os_path_exists E (world s) p" by force
  have a: "k < m" using Suc.prems(1) n by simp
  have b: "\<forall>i<k. \<not> os_path_exists E ((time_sleep E ^^ i) (world ?s1)) p"
  proof (intro allI impI)
    fix i assume "i < k"
    then have "Suc i < Suc k" by simp
    with Suc.prems(2) have "\<not> os_path_exists E ((time_sleep E ^^ Suc i) (world s)) p" by blast
    then show "\<not> os_path_exists E ((time_sleep E ^^ i) (world ?s1)) p"
      by (simp add: funpow_swap1)
  qed
  have c: "os_path_exists E ((time_sleep E ^^ k) (world ?s1)) p"
    using Suc.prems(3) by (simp add: funpow_swap1)
  have "poll_timestamp E n p ph s = poll_timestamp E m p ph ?s1"
    unfolding n using no by (simp add: check_exists_def)
  also have "\<dots> = set_file_timestamp E p (date ph)
             (?s1\<lparr>calls := calls ?s1 @ concat (replicate k [Exists p, Sleep]) @ [Exists p],
                world := (time_sleep E ^^ k) (world ?s1)\<rparr>)"
    by (rule Suc.IH [OF a b c])
  also have "?s1\<lparr>calls := calls ?s1 @ concat (replicate k [Exists p, Sleep]) @ [Exists p],
                world := (time_sleep E ^^ k) (world ?s1)\<rparr> =
             s\<lparr>calls := calls s @ concat (replicate (Suc k) [Exists p, Sleep]) @ [Exists p],
                world := (time_sleep E ^^ Suc k) (world s)\<rparr>"
    by (simp add: log_call_def funpow_swap1)
  finally show ?case .
qed

lemma poll_timestamp_absent:
  assumes "\<forall>i<n. \<not> os_path_exists E ((time_sleep E ^^ i) (world s)) p"
  shows "poll_timestamp E n p ph s =
           (Some FileNotFoundError,
            s\<lparr>calls := calls s @ concat (replicate n [Exists p, Sleep]),
               world := (time_sleep E ^^ n) (world s)\<rparr>)"
  using assms
proof (induction n arbitrary: s)
  case 0
  then show ?case by simp
next
  case (Suc n)
  let ?s1 = "(log_call Sleep (log_call (Exists p) s))\<lparr>world := time_sleep E (world s)\<rparr>"
  from Suc.prems have no: "\<not> os_path_exists E (world s) p" by force
  have b: "\<forall>i<n. \<not> os_path_exists E ((time_sleep E ^^ i) (world ?s1)) p"
  proof (intro allI impI)
    fix i assume "i < n"
    then have "Suc i < Suc n" by simp
    with Suc.prems have "\<not> os_path_exists E ((time_sleep E ^^ Suc i) (world s)) p" by blast
    then show "\<not> os_path_exists E ((time_sleep E ^^ i) (world ?s1)) p"
      by (simp add: funpow_swap1)
  qed
  have "poll_timestamp E (Suc n) p ph s = poll_timestamp E n p ph ?s1"
    using no by (simp add: check_exists_def)
  also have "\<dots> = (Some FileNotFoundError,
            ?s1\<lparr>calls := calls ?s1 @ concat (replicate n [Exists p, Sleep]),
               world := (time_sleep E ^^ n) (world ?s1)\<rparr>)"
    by (rule Suc.IH [OF b])
  also have "?s1\<lparr>calls := calls ?s1 @ concat (replicate n [Exists p, Sleep]),
               world := (time_sleep E ^^ n) (world ?s1)\<rparr> =
             s\<lparr>calls := calls s @ concat (replicate (Suc n) [Exists p, Sleep]),
               world := (time_sleep E ^^ Suc n) (world s)\<rparr>"
    by (simp add: log_call_def funpow_swap1)
  finally show ?case .
qed

lemma sync_timestamp_retry_law:
  "(\<forall>i<5. \<not> os_path_exists E ((time_sleep E ^^ i) (world s)) p) \<Longrightarrow>
     sync_timestamp_retry E p ph s =
       append_failed p ph
         (s\<lparr>calls := calls s @ concat (replicate 5 [Exists p, Sleep]),
            world := (time_sleep E ^^ 5) (world s)\<rparr>)"
  "k < 5 \<Longrightarrow> \<forall>i<k. \<not> os_path_exists E ((time_sleep E ^^ i) (world s)) p \<Longrightarrow>
   os_path_exists E ((time_sleep E ^^ k) (world s)) p \<Longrightarrow>
   os_utime E p (timestamp (date ph)) ((time_sleep E ^^ k) (world s)) = (None, w') \<Longrightarrow>
     sync_timestamp_retry E p ph s =
       s\<lparr>calls := calls s @ concat (replicate k [Exists p, Sleep]) @
                  [Exists p, Utime p (timestamp (date ph))],
          world := w'\<rparr>"
proof -
  assume "\<forall>i<5. \<not> os_path_exists E ((time_sleep E ^^ i) (world s)) p"
  from poll_timestamp_absent [OF this] show "sync_timestamp_retry E p ph s =
       append_failed p ph
         (s\<lparr>calls := calls s @ concat (replicate 5 [Exists p, Sleep]),
            world := (time_sleep E ^^ 5) (world s)\<rparr>)"
    by (simp add: sync_timestamp_retry_def)
next
  assume a: "k < 5" "\<forall>i<k. \<not> os_path_exists E ((time_sleep E ^^ i) (world s)) p"
    "os_path_exists E ((time_sleep E ^^ k) (world s)) p"
    and u: "os_utime E p (timestamp (date ph)) ((time_sleep E ^^ k) (world s)) = (None, w')"
  show "sync_timestamp_retry E p ph s =
       s\<lparr>calls := calls s @ concat (replicate k [Exists p, Sleep]) @
                  [Exists p, Utime p (timestamp (date ph))],
          world := w'\<rparr>"
    unfolding sync_timestamp_retry_def poll_timestamp_found [OF a]
    by (simp add: set_file_timestamp_def log_call_def u)
qed

section \<open>Claims about one call of the Duplicate Reconciler\<close>

text \<open>Definitions to unfold when the program is run on the concrete world.\<close>

lemmas sim_defs = sim_env_def sim_exists_def sim_read_def sim_image_def sim_phash_def
  sim_write_def sim_export_def sim_utime_def sim_sleep_def sim_makedirs_def sim_world_def
  initial_state_def

lemmas path_defs = join_def dirname_def basename_def replace_dot_def rfind_def rstrip_slash_def
  startswith_def endswith_def splitext_def duplicate_path_of_def sibling_spec_def

lemmas prog_defs = export_photo_variant_def check_exists_def call_export_def log_call_def
  set_file_timestamp_def sync_timestamp_once_def sync_timestamp_retry_def append_failed_def
  update_report_def skip_duplicate_def after_mismatch_def file_hashes_match_arg_def
  file_hashes_match_def file_hash_equal_def file_hash_def perceptual_equal_def heic_to_pil_def
  SUPPORTED_IMAGE_FORMATS_def

lemmas sample_defs = sample_photo_def sample_date_def sample_target_def sample_sibling_def

text \<open>Runs on the sample states.\<close>

lemmas sample_state_defs = sample_fresh_def sample_exported_def sample_conflict_def

lemma sample_dirname:
  "dirname sample_target = ''/Volumes/Archive/Picture Sources 01 RAW/15. iCloud Photos/2023/06''"
  by (simp add: sample_target_def path_defs)

lemma sample_basename: "basename sample_target = ''IMG_0042.jpg''"
  by (simp add: sample_target_def path_defs)

lemma sample_join: "join (dirname sample_target) (basename sample_target) = sample_target"
  unfolding sample_dirname sample_basename by (simp add: sample_target_def path_defs)

lemma sample_duplicate_path: "duplicate_path_of sample_target = sample_sibling"
  by (simp add: sample_target_def sample_sibling_def path_defs)

lemma sample_ext: "lower (snd (splitext sample_target)) = ''.jpg''"
  "lower (snd (splitext sample_sibling)) = ''.jpg''"
  "lower (snd (splitext ''/lib/IMG_0042.jpg'')) = ''.jpg''"
  by (simp_all add: sample_target_def sample_sibling_def path_defs lower_def ascii_lower_def)

lemma sample_neq: "sample_target \<noteq> ''/lib/IMG_0042.jpg''" "sample_sibling \<noteq> ''/lib/IMG_0042.jpg''"
  "sample_target \<noteq> sample_sibling" "sample_target \<noteq> ''/lib/IMG_0042_edit.jpg''"
  by (simp_all add: sample_target_def sample_sibling_def)

lemma run_exported:
  "fst (export_photo_variant (sim_env 0) sample_photo sample_target False False sample_exported)
     = Inr True"
  "report (snd (export_photo_variant (sim_env 0) sample_photo sample_target False False
     sample_exported)) = (report sample_exported)\<lparr>duplicates_skipped := 1\<rparr>"
  by (simp_all add: prog_defs sim_defs sample_state_defs sample_photo_def sample_date_def
      sample_ext sample_neq is_digit_def Let_def)

lemma run_fresh:
  "fst (export_photo_variant (sim_env 0) sample_photo sample_target False False sample_fresh)
     = Inr False"
  "report (snd (export_photo_variant (sim_env 0) sample_photo sample_target False False
     sample_fresh)) = (report sample_fresh)\<lparr>originals_exported := 1\<rparr>"
  by (simp_all add: prog_defs sim_defs sample_state_defs sample_photo_def sample_date_def
      sample_join sample_neq Let_def)

lemma run_delayed:
  "fst (export_photo_variant (sim_env 1) sample_photo sample_target False False sample_fresh)
     = Inr False"
  "failed_files (snd (export_photo_variant (sim_env 1) sample_photo sample_target False False
     sample_fresh)) = [failed_entry_of sample_target sample_photo]"
  "calls (snd (export_photo_variant (sim_env 1) sample_photo sample_target False False
     sample_fresh)) =
     [Exists sample_target,
      Export sample_photo (dirname sample_target) (basename sample_target) False False,
      Utime sample_target (timestamp (date sample_photo))]"
  "report (snd (export_photo_variant (sim_env 1) sample_photo sample_target False False
     sample_fresh)) = (report sample_fresh)\<lparr>originals_exported := 1\<rparr>"
  "pending (world (snd (export_photo_variant (sim_env 1) sample_photo sample_target False False
     sample_fresh))) = [(1, sample_target, ''abc'')]"
  by (simp_all add: prog_defs sim_defs sample_state_defs sample_photo_def sample_date_def
      sample_join sample_neq Let_def failed_entry_of_def)

text \<open>
  Claim C6. When the target path does not exist at the start of the call, the call
  invokes the export primitive exactly once, for the directory and the file name of that
  path, and does not increment duplicates-skipped; it does not report a duplicate. This
  holds also when the export primitive raises. For the target paths the driver builds
  from a file name without a slash, that directory and file name join back to the target
  path (\<open>variant_target_rejoin\<close> below).
\<close>

theorem export_when_target_absent:
  assumes "\<not> os_path_exists E (world s) p"
  shows "export_calls (snd (export_photo_variant E ph p is_edited is_live s))
           = export_calls s @ [Export ph (dirname p) (basename p) is_edited is_live] \<and>
         duplicates_skipped (report (snd (export_photo_variant E ph p is_edited is_live s)))
           = duplicates_skipped (report s) \<and>
         fst (export_photo_variant E ph p is_edited is_live s) \<noteq> Inr True"
proof -
  obtain r s' where run: "export_photo_variant E ph p is_edited is_live s = (r, s')"
    by (cases "export_photo_variant E ph p is_edited is_live s")
  from not_exists_branch [OF assms run] show ?thesis
    unfolding run by (auto simp: counted_exported_def)
qed

theorem export_when_target_absent_witness:
  "\<not> os_path_exists (sim_env 0) (world (initial_state (sim_world [(''/lib/IMG_0042.jpg'', ''abc'')])))
       sample_target \<and>
   export_calls (snd (export_photo_variant (sim_env 0) sample_photo sample_target False False
       (initial_state (sim_world [(''/lib/IMG_0042.jpg'', ''abc'')]))))
     = [Export sample_photo ''/Volumes/Archive/Picture Sources 01 RAW/15. iCloud Photos/2023/06''
          ''IMG_0042.jpg'' False False] \<and>
   duplicates_skipped (report (snd (export_photo_variant (sim_env 0) sample_photo sample_target
       False False (initial_state (sim_world [(''/lib/IMG_0042.jpg'', ''abc'')]))))) = 0"
proof -
  let ?s = "initial_state (sim_world [(''/lib/IMG_0042.jpg'', ''abc'')])"
  have h: "\<not> os_path_exists (sim_env 0) (world ?s) sample_target"
    by (simp add: sim_defs sample_defs)
  have dn: "dirname sample_target = ''/Volumes/Archive/Picture Sources 01 RAW/15. iCloud Photos/2023/06''"
    by (simp add: sample_target_def path_defs)
  have bn: "basename sample_target = ''IMG_0042.jpg''"
    by (simp add: sample_target_def path_defs)
  have e: "export_calls ?s = []" "duplicates_skipped (report ?s) = 0"
    by (simp_all add: export_calls_def initial_state_def)
  from export_when_target_absent [OF h, of sample_photo False False] h show ?thesis
    unfolding dn bn e by simp
qed

text \<open>
  Claim C9. Every call of \<open>export_photo_variant\<close> that returns increments exactly one of
  duplicates-skipped and the exported counter of its variant, by exactly one: when it
  returns \<open>True\<close> only duplicates-skipped changes, and when it returns \<open>False\<close> the
  variant's exported counter (and the sum of the three exported counters) grows by one,
  duplicates-skipped is unchanged and duplicates-created grows by at most one. No counter
  decreases, and the call returns \<open>True\<close> exactly when duplicates-skipped was incremented.
\<close>

theorem export_photo_variant_counters:
  assumes "export_photo_variant E ph p is_edited is_live s = (Inr b, s')"
  shows "(b \<longleftrightarrow> duplicates_skipped (report s') = duplicates_skipped (report s) + 1) \<and>
         (b \<longrightarrow> report s' = (report s)\<lparr>duplicates_skipped := duplicates_skipped (report s) + 1\<rparr>) \<and>
         (\<not> b \<longrightarrow>
            duplicates_skipped (report s') = duplicates_skipped (report s) \<and>
            variant_counter is_edited is_live (report s')
              = variant_counter is_edited is_live (report s) + 1 \<and>
            exported_total (report s') = exported_total (report s) + 1 \<and>
            (duplicates_created (report s') = duplicates_created (report s) \<or>
             duplicates_created (report s') = duplicates_created (report s) + 1)) \<and>
         originals_exported (report s) \<le> originals_exported (report s') \<and>
         edits_exported (report s) \<le> edits_exported (report s') \<and>
         live_photos_exported (report s) \<le> live_photos_exported (report s') \<and>
         duplicates_skipped (report s) \<le> duplicates_skipped (report s') \<and>
         duplicates_created (report s) \<le> duplicates_created (report s')"
proof -
  have "(b \<and> counted_skipped (report s) (report s')) \<or>
        (\<not> b \<and> counted_exported is_edited is_live (report s) (report s'))"
  proof (cases "os_path_exists E (world s) p")
    case True
    from exists_branch [OF True assms] show ?thesis by auto
  next
    case False
    from not_exists_branch [OF False assms] show ?thesis by auto
  qed
  then show ?thesis
  proof
    assume "b \<and> counted_skipped (report s) (report s')"
    then show ?thesis by (simp add: counted_skipped_def)
  next
    assume "\<not> b \<and> counted_exported is_edited is_live (report s) (report s')"
    then show ?thesis by (auto simp: counted_exported_def)
  qed
qed

theorem export_photo_variant_counters_witness:
  "fst (export_photo_variant (sim_env 0) sample_photo sample_target False False sample_exported)
     = Inr True \<and>
   duplicates_skipped (report (snd (export_photo_variant (sim_env 0) sample_photo sample_target
     False False sample_exported))) = duplicates_skipped (report sample_exported) + 1 \<and>
   fst (export_photo_variant (sim_env 0) sample_photo sample_target False False sample_fresh)
     = Inr False \<and>
   variant_counter False False (report (snd (export_photo_variant (sim_env 0) sample_photo
     sample_target False False sample_fresh)))
     = variant_counter False False (report sample_fresh) + 1 \<and>
   duplicates_skipped (report (snd (export_photo_variant (sim_env 0) sample_photo sample_target
     False False sample_fresh))) = duplicates_skipped (report sample_fresh)"
proof -
  let ?a = "export_photo_variant (sim_env 0) sample_photo sample_target False False sample_exported"
  let ?b = "export_photo_variant (sim_env 0) sample_photo sample_target False False sample_fresh"
  have a: "?a = (Inr True, snd ?a)" using run_exported(1) by (metis prod.collapse)
  have b: "?b = (Inr False, snd ?b)" using run_fresh(1) by (metis prod.collapse)
  from export_photo_variant_counters [OF a] export_photo_variant_counters [OF b]
    run_exported(1) run_fresh(1)
  show ?thesis by simp
qed

text \<open>
  Claim C8. A call that appends to the failure list appends exactly one entry, for the
  target path or its sibling and the photo's capture date, returns \<open>False\<close>, and increments
  the exported counter of its variant in the same call.
\<close>

theorem failure_entry_only_with_export_count:
  assumes "export_photo_variant E ph p is_edited is_live s = (r, s')"
    and "failed_files s' \<noteq> failed_files s"
  shows "r = Inr False \<and>
         variant_counter is_edited is_live (report s')
           = variant_counter is_edited is_live (report s) + 1 \<and>
         (\<exists>q. failed_files s' = failed_files s @ [failed_entry_of q ph] \<and>
              (q = p \<or> q = duplicate_path_of p))"
proof (cases "os_path_exists E (world s) p")
  case True
  from exists_branch [OF True assms(1)] assms(2) show ?thesis
    by (auto simp: counted_exported_def)
next
  case False
  from not_exists_branch [OF False assms(1)] assms(2) show ?thesis
    by (auto simp: counted_exported_def)
qed

theorem failure_entry_only_with_export_count_witness:
  "failed_files (snd (export_photo_variant (sim_env 1) sample_photo sample_target False False
     sample_fresh)) \<noteq> failed_files sample_fresh \<and>
   fst (export_photo_variant (sim_env 1) sample_photo sample_target False False sample_fresh)
     = Inr False \<and>
   variant_counter False False (report (snd (export_photo_variant (sim_env 1) sample_photo
     sample_target False False sample_fresh)))
     = variant_counter False False (report sample_fresh) + 1"
proof -
  let ?a = "export_photo_variant (sim_env 1) sample_photo sample_target False False sample_fresh"
  have a: "?a = (fst ?a, snd ?a)" by simp
  have n: "failed_files (snd ?a) \<noteq> failed_files sample_fresh"
    unfolding run_delayed(2) by (simp add: sample_fresh_def initial_state_def)
  from failure_entry_only_with_export_count [OF a n] n show ?thesis by simp
qed

text \<open>
  Claim C1. The target exists and does not match the source, and the sibling existed
  before the call and does not match either. The code prints that it is skipping and
  falls through to line 183: it does not call the export primitive, but it sets the
  timestamp of the file at the target path and increments the exported counter of the
  variant, and returns \<open>False\<close>. On the sample state with both files present:
\<close>

theorem unresolved_mismatch_is_counted_as_export:
  "os_path_exists (sim_env 0) (world sample_conflict) sample_target \<and>
   file_hashes_match_arg (sim_env 0) (world sample_conflict) (path sample_photo) sample_target
     = Inr False \<and>
   os_path_exists (sim_env 0) (world sample_conflict) (duplicate_path_of sample_target) \<and>
   file_hashes_match_arg (sim_env 0) (world sample_conflict) (path sample_photo)
     (duplicate_path_of sample_target) = Inr False \<and>
   fst (export_photo_variant (sim_env 0) sample_photo sample_target False False sample_conflict)
     = Inr False \<and>
   export_calls (snd (export_photo_variant (sim_env 0) sample_photo sample_target False False
     sample_conflict)) = [] \<and>
   originals_exported (report (snd (export_photo_variant (sim_env 0) sample_photo sample_target
     False False sample_conflict))) = originals_exported (report sample_conflict) + 1 \<and>
   calls (snd (export_photo_variant (sim_env 0) sample_photo sample_target False False
     sample_conflict)) =
     [Exists sample_target, Exists sample_sibling, Exists sample_sibling, Exists sample_target,
      Utime sample_target (timestamp (date sample_photo))]"
  by (simp add: prog_defs sim_defs sample_state_defs sample_photo_def sample_date_def
      sample_duplicate_path sample_ext sample_neq is_digit_def Let_def export_calls_def
      eval_nat_numeral)

text \<open>
  Claim C4. When the target did not exist before the export, the code sets the timestamp
  once, without polling (lines 226 to 234). With an export whose file becomes visible one
  second later, the call makes no existence check after the export and no pause, and
  records a failure at once, although the file is visible a second later; the retry loop
  of lines 190 to 204, started from the state right after the same export, sets the
  timestamp on its second check and records nothing.
\<close>

theorem no_retry_when_target_absent:
  "\<not> os_path_exists (sim_env 1) (world sample_fresh) sample_target \<and>
   fst (export_photo_variant (sim_env 1) sample_photo sample_target False False sample_fresh)
     = Inr False \<and>
   calls (snd (export_photo_variant (sim_env 1) sample_photo sample_target False False
     sample_fresh)) =
     [Exists sample_target,
      Export sample_photo (dirname sample_target) (basename sample_target) False False,
      Utime sample_target (timestamp (date sample_photo))] \<and>
   failed_files (snd (export_photo_variant (sim_env 1) sample_photo sample_target False False
     sample_fresh)) = [failed_entry_of sample_target sample_photo] \<and>
   os_path_exists (sim_env 1)
     (time_sleep (sim_env 1) (world (snd (export_photo_variant (sim_env 1) sample_photo
        sample_target False False sample_fresh)))) sample_target \<and>
   failed_files (sync_timestamp_retry (sim_env 1) sample_target sample_photo
     (snd (call_export (sim_env 1) sample_photo sample_target False False sample_fresh))) = [] \<and>
   calls (sync_timestamp_retry (sim_env 1) sample_target sample_photo
     (snd (call_export (sim_env 1) sample_photo sample_target False False sample_fresh))) =
     [Export sample_photo (dirname sample_target) (basename sample_target) False False,
      Exists sample_target, Sleep, Exists sample_target,
      Utime sample_target (timestamp (date sample_photo))]"
proof -
  have 1: "\<not> os_path_exists (sim_env 1) (world sample_fresh) sample_target"
    by (simp add: sim_defs sample_state_defs sample_neq)
  have 2: "os_path_exists (sim_env 1)
     (time_sleep (sim_env 1) (world (snd (export_photo_variant (sim_env 1) sample_photo
        sample_target False False sample_fresh)))) sample_target"
    by (simp add: prog_defs sim_defs sample_state_defs sample_photo_def sample_date_def
      sample_join sample_neq Let_def)
  have 3: "failed_files (sync_timestamp_retry (sim_env 1) sample_target sample_photo
     (snd (call_export (sim_env 1) sample_photo sample_target False False sample_fresh))) = []"
    "calls (sync_timestamp_retry (sim_env 1) sample_target sample_photo
     (snd (call_export (sim_env 1) sample_photo sample_target False False sample_fresh))) =
     [Export sample_photo (dirname sample_target) (basename sample_target) False False,
      Exists sample_target, Sleep, Exists sample_target,
      Utime sample_target (timestamp (date sample_photo))]"
    by (simp_all add: prog_defs sim_defs sample_state_defs sample_photo_def sample_date_def
      sample_join sample_neq Let_def eval_nat_numeral)
  show ?thesis using 1 2 3 run_delayed(1,2,3) by simp
qed

section \<open>Claims about the Content Comparator\<close>

text \<open>
  Claim C7, as stated, fails: both paths have supported extensions and opening the first
  image raises, but the fallback \<open>file_hash\<close> opens the same missing file and its
  \<^verbatim>\<open>FileNotFoundError\<close> reaches the caller.
\<close>

theorem file_hashes_match_can_raise:
  "lower (snd (splitext ''/lib/IMG_0042.jpg'')) \<in> set SUPPORTED_IMAGE_FORMATS \<and>
   lower (snd (splitext sample_target)) \<in> set SUPPORTED_IMAGE_FORMATS \<and>
   Image_open (sim_env 0) (sim_world [(sample_target, ''abc'')]) ''/lib/IMG_0042.jpg''
     = Inl FileNotFoundError \<and>
   file_hashes_match (sim_env 0) (sim_world [(sample_target, ''abc'')]) ''/lib/IMG_0042.jpg''
     sample_target = Inl FileNotFoundError"
  by (simp add: prog_defs sim_defs sample_ext sample_neq sample_neq [symmetric])

text \<open>
  Claim C7, amended. For two paths with supported extensions whose files can both be read
  for hashing, \<open>file_hashes_match\<close> always returns a value, and when opening or decoding
  either image or computing either perceptual hash raises, with whatever exception, the
  value is the equality of the two content hashes.
\<close>

theorem file_hashes_match_fallback:
  assumes "lower (snd (splitext a)) \<in> set SUPPORTED_IMAGE_FORMATS"
    and "lower (snd (splitext b)) \<in> set SUPPORTED_IMAGE_FORMATS"
    and "read_bytes E w a = Inr x" and "read_bytes E w b = Inr y"
  shows "(\<exists>v. file_hashes_match E w a b = Inr v) \<and>
         (let open_a = (if lower (snd (splitext a)) = ''.heic'' then heic_to_pil E w a
                        else Image_open E w a);
              open_b = (if lower (snd (splitext b)) = ''.heic'' then heic_to_pil E w b
                        else Image_open E w b)
          in ((\<exists>ex. open_a = Inl ex) \<or> (\<exists>ex. open_b = Inl ex) \<or>
              (\<exists>ia ex. open_a = Inr ia \<and> phash E ia = Inl ex) \<or>
              (\<exists>ib ex. open_b = Inr ib \<and> phash E ib = Inl ex)) \<longrightarrow>
             file_hashes_match E w a b = Inr (sha256_hexdigest E x = sha256_hexdigest E y))"
proof -
  have fb: "file_hash_equal E w a b = Inr (sha256_hexdigest E x = sha256_hexdigest E y)"
    using assms(3,4) by (simp add: file_hash_equal_def file_hash_def)
  have m: "file_hashes_match E w a b =
     (case perceptual_equal E w a (lower (snd (splitext a))) b (lower (snd (splitext b))) of
        Inl ex \<Rightarrow> Inr (sha256_hexdigest E x = sha256_hexdigest E y)
      | Inr v \<Rightarrow> Inr v)"
    using assms(1,2) unfolding file_hashes_match_def Let_def fb
    by (simp split: sum.splits pyexc.splits)
  have 1: "\<exists>v. file_hashes_match E w a b = Inr v"
    unfolding m by (simp split: sum.splits)
  have 2: "file_hashes_match E w a b = Inr (sha256_hexdigest E x = sha256_hexdigest E y)"
    if "perceptual_equal E w a (lower (snd (splitext a))) b (lower (snd (splitext b))) = Inl ex"
    for ex
    unfolding m that by simp
  show ?thesis
    unfolding Let_def
  proof (intro conjI impI)
    show "\<exists>v. file_hashes_match E w a b = Inr v" by (rule 1)
  next
    define oa where
      "oa = (if lower (snd (splitext a)) = ''.heic'' then heic_to_pil E w a else Image_open E w a)"
    define ob where
      "ob = (if lower (snd (splitext b)) = ''.heic'' then heic_to_pil E w b else Image_open E w b)"
    have pe: "perceptual_equal E w a (lower (snd (splitext a))) b (lower (snd (splitext b))) =
      (case oa of
         Inl e \<Rightarrow> Inl e
       | Inr ia \<Rightarrow>
           (case ob of
              Inl e \<Rightarrow> Inl e
            | Inr ib \<Rightarrow>
                (case phash E ia of
                   Inl e \<Rightarrow> Inl e
                 | Inr ha \<Rightarrow>
                     (case phash E ib of Inl e \<Rightarrow> Inl e | Inr hb \<Rightarrow> Inr (ha = hb)))))"
      unfolding perceptual_equal_def oa_def ob_def ..
    assume "(\<exists>ex. (if lower (snd (splitext a)) = ''.heic'' then heic_to_pil E w a
                    else Image_open E w a) = Inl ex) \<or>
            (\<exists>ex. (if lower (snd (splitext b)) = ''.heic'' then heic_to_pil E w b
                    else Image_open E w b) = Inl ex) \<or>
            (\<exists>ia ex. (if lower (snd (splitext a)) = ''.heic'' then heic_to_pil E w a
                       else Image_open E w a) = Inr ia \<and> phash E ia = Inl ex) \<or>
            (\<exists>ib ex. (if lower (snd (splitext b)) = ''.heic'' then heic_to_pil E w b
                       else Image_open E w b) = Inr ib \<and> phash E ib = Inl ex)"
    then have "(\<exists>ex. oa = Inl ex) \<or> (\<exists>ex. ob = Inl ex) \<or>
            (\<exists>ia ex. oa = Inr ia \<and> phash E ia = Inl ex) \<or>
            (\<exists>ib ex. ob = Inr ib \<and> phash E ib = Inl ex)"
      unfolding oa_def ob_def .
    then have "\<exists>ex. perceptual_equal E w a (lower (snd (splitext a))) b (lower (snd (splitext b)))
                 = Inl ex"
      unfolding pe by (auto split: sum.splits)
    then show "file_hashes_match E w a b = Inr (sha256_hexdigest E x = sha256_hexdigest E y)"
      using 2 by blast
  qed
qed

theorem file_hashes_match_fallback_witness:
  "lower (snd (splitext ''/lib/IMG_0042.jpg'')) \<in> set SUPPORTED_IMAGE_FORMATS \<and>
   lower (snd (splitext sample_target)) \<in> set SUPPORTED_IMAGE_FORMATS \<and>
   read_bytes (sim_env 0) (sim_world [(''/lib/IMG_0042.jpg'', []), (sample_target, ''abc'')])
     ''/lib/IMG_0042.jpg'' = Inr [] \<and>
   read_bytes (sim_env 0) (sim_world [(''/lib/IMG_0042.jpg'', []), (sample_target, ''abc'')])
     sample_target = Inr ''abc'' \<and>
   Image_open (sim_env 0) (sim_world [(''/lib/IMG_0042.jpg'', []), (sample_target, ''abc'')])
     ''/lib/IMG_0042.jpg'' = Inl UnidentifiedImageError \<and>
   file_hashes_match (sim_env 0)
     (sim_world [(''/lib/IMG_0042.jpg'', []), (sample_target, ''abc'')])
     ''/lib/IMG_0042.jpg'' sample_target = Inr False"
proof -
  let ?w = "sim_world [(''/lib/IMG_0042.jpg'', []), (sample_target, ''abc'')]"
  have a: "lower (snd (splitext ''/lib/IMG_0042.jpg'')) \<in> set SUPPORTED_IMAGE_FORMATS"
    and b: "lower (snd (splitext sample_target)) \<in> set SUPPORTED_IMAGE_FORMATS"
    by (simp_all add: sample_ext SUPPORTED_IMAGE_FORMATS_def)
  have x: "read_bytes (sim_env 0) ?w ''/lib/IMG_0042.jpg'' = Inr []"
    and y: "read_bytes (sim_env 0) ?w sample_target = Inr ''abc''"
    by (simp_all add: sim_defs sample_neq)
  have o: "Image_open (sim_env 0) ?w ''/lib/IMG_0042.jpg'' = Inl UnidentifiedImageError"
    by (simp add: sim_defs)
  have s: "sha256_hexdigest (sim_env 0) [] \<noteq> sha256_hexdigest (sim_env 0) ''abc''"
    by (simp add: sim_env_def)
  from file_hashes_match_fallback [OF a b x y] o s
  have "file_hashes_match (sim_env 0) ?w ''/lib/IMG_0042.jpg'' sample_target = Inr False"
    by (simp add: sample_ext Let_def)
  with a b x y o show ?thesis by simp
qed

text \<open>
  When the first file cannot be read and the comparison reaches the fallback, for an
  unsupported extension or after any exception of the perceptual comparison, the
  exception of reading it is the result of \<open>file_hashes_match\<close>.
\<close>

lemma file_hashes_match_unreadable:
  assumes "read_bytes E w a = Inl ex"
    and "lower (snd (splitext a)) \<notin> set SUPPORTED_IMAGE_FORMATS \<or>
         lower (snd (splitext b)) \<notin> set SUPPORTED_IMAGE_FORMATS \<or>
         (\<exists>x. perceptual_equal E w a (lower (snd (splitext a))) b (lower (snd (splitext b))) = Inl x)"
  shows "file_hashes_match E w a b = Inl ex"
proof -
  have fb: "file_hash_equal E w a b = Inl ex"
    using assms(1) by (simp add: file_hash_equal_def file_hash_def)
  from assms(2) show ?thesis
    unfolding file_hashes_match_def Let_def fb
    by (auto split: sum.splits pyexc.splits)
qed

section \<open>The Pipeline Driver\<close>

lemma process_photos_append:
  "process_photos E (xs @ ys) s =
     (case process_photos E xs s of
        (Inl e, s1) \<Rightarrow> (Inl e, s1)
      | (Inr _, s1) \<Rightarrow> process_photos E ys s1)"
  by (induction xs arbitrary: s) (auto split: prod.splits sum.splits)

text \<open>
  Over a whole run, also one that an exception ends, the failure list grows by at most as
  many entries as variants were counted as exported, and the exported counters do not
  decrease.
\<close>

lemma variant_failures_bounded:
  assumes "export_photo_variant E ph p e l s = (r, s')"
  shows "exported_total (report s) \<le> exported_total (report s') \<and>
         int (length (failed_files s')) - int (length (failed_files s))
           \<le> exported_total (report s') - exported_total (report s)"
proof (cases "os_path_exists E (world s) p")
  case True
  from exists_branch [OF True assms] show ?thesis
    by (auto simp: counted_exported_def counted_skipped_def exported_total_def)
next
  case False
  from not_exists_branch [OF False assms] show ?thesis
    by (auto simp: counted_exported_def exported_total_def)
qed

lemma call_makedirs_frame:
  assumes "call_makedirs E p s = (r, s')"
  shows "report s' = report s" "failed_files s' = failed_files s"
  using assms by (auto simp: call_makedirs_def Let_def split: prod.splits)

lemma other_variants_failures_bounded:
  assumes "export_other_variants E ph s = (r, s')"
  shows "exported_total (report s) \<le> exported_total (report s') \<and>
         int (length (failed_files s')) - int (length (failed_files s))
           \<le> exported_total (report s') - exported_total (report s)"
proof -
  obtain r1 s1 where a: "(if hasadjustments ph
      then export_photo_variant E ph (edited_path ph) True False s else (Inr False, s)) = (r1, s1)"
    by (cases "if hasadjustments ph
      then export_photo_variant E ph (edited_path ph) True False s else (Inr False, s)")
  have b1: "exported_total (report s) \<le> exported_total (report s1) \<and>
         int (length (failed_files s1)) - int (length (failed_files s))
           \<le> exported_total (report s1) - exported_total (report s)"
  proof (cases "hasadjustments ph")
    case True
    with a have "export_photo_variant E ph (edited_path ph) True False s = (r1, s1)" by simp
    from variant_failures_bounded [OF this] show ?thesis .
  next
    case False
    with a show ?thesis by simp
  qed
  show ?thesis
  proof (cases "live_photo ph \<and> (\<exists>v. r1 = Inr v)")
    case False
    with assms a have "s' = s1"
      by (auto simp: export_other_variants_def split: sum.splits if_splits)
    with b1 show ?thesis by simp
  next
    case True
    obtain r2 s2 where c: "export_photo_variant E ph (live_photo_path ph) False True s1 = (r2, s2)"
      by (cases "export_photo_variant E ph (live_photo_path ph) False True s1")
    with assms a True have "s' = s2"
      by (auto simp: export_other_variants_def split: sum.splits)
    with variant_failures_bounded [OF c] b1 show ?thesis by simp
  qed
qed

lemma process_photo_failures_bounded:
  assumes "process_photo E ph s = (r, s')"
  shows "exported_total (report s) \<le> exported_total (report s') \<and>
         int (length (failed_files s')) - int (length (failed_files s))
           \<le> exported_total (report s') - exported_total (report s)"
proof -
  obtain r0 s0 where m: "call_makedirs E (year_month_path ph) s = (r0, s0)"
    by (cases "call_makedirs E (year_month_path ph) s")
  note f0 = call_makedirs_frame [OF m]
  show ?thesis
  proof (cases r0)
    case (Some x)
    with assms m have "s' = s0" by (simp add: process_photo_def)
    with f0 show ?thesis by simp
  next
    case None
    obtain r1 s1 where o: "export_photo_variant E ph (original_path ph) False False s0 = (r1, s1)"
      by (cases "export_photo_variant E ph (original_path ph) False False s0")
    note b1 = variant_failures_bounded [OF o]
    show ?thesis
    proof (cases "r1 = Inr False")
      case False
      with assms m None o have "s' = s1"
        by (auto simp: process_photo_def split: sum.splits if_splits)
      with b1 f0 show ?thesis by simp
    next
      case True
      with assms m None o have "export_other_variants E ph s1 = (r, s')"
        by (simp add: process_photo_def)
      from other_variants_failures_bounded [OF this] b1 f0 show ?thesis by simp
    qed
  qed
qed

lemma run_failures_bounded:
  "process_photos E phs s = (r, s') \<Longrightarrow>
     exported_total (report s) \<le> exported_total (report s') \<and>
     int (length (failed_files s')) - int (length (failed_files s))
       \<le> exported_total (report s') - exported_total (report s)"
proof (induction phs arbitrary: s)
  case Nil
  then show ?case by simp
next
  case (Cons ph phs)
  obtain r1 s1 where p: "process_photo E ph s = (r1, s1)" by (cases "process_photo E ph s")
  note b1 = process_photo_failures_bounded [OF p]
  show ?case
  proof (cases r1)
    case (Inl x)
    with Cons.prems p have "s' = s1" by simp
    with b1 show ?thesis by simp
  next
    case (Inr u)
    with Cons.prems p have "process_photos E phs s1 = (r, s')" by simp
    from Cons.IH [OF this] b1 show ?thesis by simp
  qed
qed

section \<open>The call log of a run\<close>

lemma set_file_timestamp_calls:
  assumes "set_file_timestamp E p d s = (r, s')"
  shows "calls s' = calls s @ [Utime p (timestamp d)]"
  using assms by (auto simp: set_file_timestamp_def Let_def split: prod.splits)

lemma poll_timestamp_calls:
  "poll_timestamp E n p ph s = (r, s') \<Longrightarrow>
     \<exists>cs. calls s' = calls s @ cs \<and> list_all (own_call ph0) cs"
proof (induction n arbitrary: s)
  case 0
  then show ?case by simp
next
  case (Suc n)
  show ?case
  proof (cases "os_path_exists E (world s) p")
    case True
    with Suc.prems have "set_file_timestamp E p (date ph) (log_call (Exists p) s) = (r, s')"
      by (simp add: check_exists_def)
    from set_file_timestamp_calls [OF this]
    have "calls s' = calls s @ [Exists p, Utime p (timestamp (date ph))]" by simp
    then show ?thesis by simp
  next
    case False
    with Suc.prems have
      "poll_timestamp E n p ph
         ((log_call Sleep (log_call (Exists p) s))\<lparr>world := time_sleep E (world s)\<rparr>) = (r, s')"
      by (simp add: check_exists_def)
    from Suc.IH [OF this] obtain cs where
      "calls s' = calls s @ [Exists p, Sleep] @ cs" "list_all (own_call ph0) cs" by auto
    then show ?thesis by (intro exI [of _ "[Exists p, Sleep] @ cs"]) simp
  qed
qed

lemma append_failed_calls [simp]: "calls (append_failed p ph s) = calls s"
  by (simp add: append_failed_def)

lemma update_report_calls [simp]: "calls (update_report e l s) = calls s"
  by (simp add: update_report_def)

lemma skip_duplicate_calls [simp]: "calls (skip_duplicate s) = calls s"
  by (simp add: skip_duplicate_def)

lemma sync_timestamp_retry_calls:
  "\<exists>cs. calls (sync_timestamp_retry E p ph s) = calls s @ cs \<and> list_all (own_call ph0) cs"
proof -
  obtain r s' where h: "poll_timestamp E 5 p ph s = (r, s')" by (cases "poll_timestamp E 5 p ph s")
  from poll_timestamp_calls [OF h, of ph0] show ?thesis
    by (auto simp: sync_timestamp_retry_def h split: option.splits pyexc.splits)
qed

lemma sync_timestamp_once_calls:
  "\<exists>cs. calls (sync_timestamp_once E p ph s) = calls s @ cs \<and> list_all (own_call ph0) cs"
proof -
  obtain r s' where h: "set_file_timestamp E p (date ph) s = (r, s')"
    by (cases "set_file_timestamp E p (date ph) s")
  from set_file_timestamp_calls [OF h] show ?thesis
    by (auto simp: sync_timestamp_once_def h split: option.splits pyexc.splits)
qed

lemma call_export_calls:
  assumes "call_export E ph p e l s = (r, s')"
  shows "calls s' = calls s @ [Export ph (dirname p) (basename p) e l]"
  using assms by (auto simp: call_export_def Let_def split: prod.splits)

lemma after_mismatch_calls:
  assumes "after_mismatch E ph p dp pre e l s = (r, s')"
  shows "\<exists>cs. calls s' = calls s @ cs \<and> list_all (own_call ph) cs"
proof -
  define s1 where "s1 = log_call (Exists dp) s"
  define created where "created = (os_path_exists E (world s) dp \<and> \<not> pre)"
  define s2 where "s2 = (if created
                then s1\<lparr>report := (report s1)\<lparr>duplicates_created := duplicates_created (report s1) + 1\<rparr>\<rparr>
                else s1)"
  define p' where "p' = (if created then dp else p)"
  have s': "s' = update_report e l (sync_timestamp_retry E p' ph s2)"
    using assms unfolding after_mismatch_def check_exists_def s1_def created_def s2_def p'_def
    by (simp add: Let_def)
  have c2: "calls s2 = calls s @ [Exists dp]" by (simp add: s2_def s1_def)
  from sync_timestamp_retry_calls [of E p' ph s2 ph] obtain cs where
    "calls (sync_timestamp_retry E p' ph s2) = calls s2 @ cs" "list_all (own_call ph) cs" by blast
  then have "calls s' = calls s @ ([Exists dp] @ cs) \<and> list_all (own_call ph) ([Exists dp] @ cs)"
    unfolding s' c2 by simp
  then show ?thesis by blast
qed

lemma export_photo_variant_calls:
  assumes run: "export_photo_variant E ph p e l s = (r, s')"
  shows "\<exists>cs. calls s' = calls s @ Exists p # cs \<and> list_all (own_call ph) cs"
proof -
  define s1 where "s1 = log_call (Exists p) s"
  have c1: "calls s1 = calls s @ [Exists p]" by (simp add: s1_def)
  have "\<exists>cs. calls s' = calls s1 @ cs \<and> list_all (own_call ph) cs"
  proof (cases "os_path_exists E (world s) p")
    case False
    obtain x s2 where c: "call_export E ph p e l s1 = (x, s2)"
      by (cases "call_export E ph p e l s1")
    note cc = call_export_calls [OF c]
    show ?thesis
    proof (cases x)
      case (Some ex)
      with run False c have "s' = s2"
        by (simp add: export_photo_variant_def check_exists_def s1_def)
      with cc show ?thesis by simp
    next
      case None
      with run False c have s': "s' = update_report e l (sync_timestamp_once E p ph s2)"
        by (simp add: export_photo_variant_def check_exists_def s1_def)
      from sync_timestamp_once_calls [of E p ph s2 ph] obtain cs where
        "calls (sync_timestamp_once E p ph s2) = calls s2 @ cs" "list_all (own_call ph) cs" by blast
      then have "calls s' = calls s1 @ (Export ph (dirname p) (basename p) e l # cs) \<and>
                 list_all (own_call ph) (Export ph (dirname p) (basename p) e l # cs)"
        unfolding s' cc by simp
      then show ?thesis by blast
    qed
  next
    case True
    define pp where "pp = (if e then path_edited ph else path ph)"
    define dp where "dp = duplicate_path_of p"
    define s2 where "s2 = log_call (Exists dp) s1"
    have c2: "calls s2 = calls s1 @ [Exists dp]" by (simp add: s2_def)
    have w: "world s1 = world s" "world s2 = world s" by (simp_all add: s1_def s2_def)
    note unf = export_photo_variant_def check_exists_def Let_def
    consider (err) x where "file_hashes_match_arg E (world s) pp p = Inl x"
      | (same) "file_hashes_match_arg E (world s) pp p = Inr True"
      | (diff) "file_hashes_match_arg E (world s) pp p = Inr False"
      by (cases "file_hashes_match_arg E (world s) pp p") auto
    then show ?thesis
    proof cases
      case err
      with run True have "s' = s1" unfolding unf s1_def pp_def by simp
      then show ?thesis by simp
    next
      case same
      with run True have "s' = skip_duplicate s1" unfolding unf s1_def pp_def by simp
      then show ?thesis by simp
    next
      case diff
      show ?thesis
      proof (cases "os_path_exists E (world s) dp")
        case False
        obtain x s3 where c: "call_export E ph p e l s2 = (x, s3)"
          by (cases "call_export E ph p e l s2")
        note cc = call_export_calls [OF c]
        show ?thesis
        proof (cases x)
          case (Some exc)
          with run True diff False c have "s' = s3"
            unfolding unf s1_def s2_def pp_def dp_def by simp
          with cc c2 show ?thesis by simp
        next
          case None
          with run True diff False c have "after_mismatch E ph p dp False e l s3 = (r, s')"
            unfolding unf s1_def s2_def pp_def dp_def by simp
          from after_mismatch_calls [OF this] obtain cs where
            "calls s' = calls s3 @ cs" "list_all (own_call ph) cs" by blast
          then have "calls s' = calls s1 @ ([Exists dp, Export ph (dirname p) (basename p) e l] @ cs) \<and>
             list_all (own_call ph) ([Exists dp, Export ph (dirname p) (basename p) e l] @ cs)"
            unfolding cc c2 by simp
          then show ?thesis by blast
        qed
      next
        case ex2: True
        consider (err2) x where "file_hashes_match_arg E (world s) pp dp = Inl x"
          | (same2) "file_hashes_match_arg E (world s) pp dp = Inr True"
          | (diff2) "file_hashes_match_arg E (world s) pp dp = Inr False"
          by (cases "file_hashes_match_arg E (world s) pp dp") auto
        then show ?thesis
        proof cases
          case err2
          with run True diff ex2 have "s' = s2"
            unfolding unf s1_def s2_def pp_def dp_def by simp
          with c2 show ?thesis by simp
        next
          case same2
          with run True diff ex2 have "s' = skip_duplicate s2"
            unfolding unf s1_def s2_def pp_def dp_def by simp
          with c2 show ?thesis by simp
        next
          case diff2
          with run True diff ex2 have "after_mismatch E ph p dp True e l s2 = (r, s')"
            unfolding unf s1_def s2_def pp_def dp_def by simp
          from after_mismatch_calls [OF this] obtain cs where
            "calls s' = calls s2 @ cs" "list_all (own_call ph) cs" by blast
          then have "calls s' = calls s1 @ ([Exists dp] @ cs) \<and>
             list_all (own_call ph) ([Exists dp] @ cs)"
            unfolding c2 by simp
          then show ?thesis by blast
        qed
      qed
    qed
  qed
  then obtain cs where "calls s' = calls s1 @ cs" "list_all (own_call ph) cs" by blast
  then have "calls s' = calls s @ Exists p # cs \<and> list_all (own_call ph) cs"
    unfolding c1 by simp
  then show ?thesis by blast
qed

lemma export_other_variants_calls:
  assumes "export_other_variants E ph s = (r, s')"
  shows "\<exists>cs. calls s' = calls s @ cs \<and> list_all (own_call ph) cs"
proof -
  obtain r1 s1 where a: "(if hasadjustments ph
      then export_photo_variant E ph (edited_path ph) True False s else (Inr False, s)) = (r1, s1)"
    by (cases "if hasadjustments ph
      then export_photo_variant E ph (edited_path ph) True False s else (Inr False, s)")
  have "\<exists>cs. calls s1 = calls s @ cs \<and> list_all (own_call ph) cs"
  proof (cases "hasadjustments ph")
    case True
    with a have "export_photo_variant E ph (edited_path ph) True False s = (r1, s1)" by simp
    from export_photo_variant_calls [OF this] obtain cs where
      "calls s1 = calls s @ Exists (edited_path ph) # cs" "list_all (own_call ph) cs" by blast
    then have "calls s1 = calls s @ (Exists (edited_path ph) # cs) \<and>
       list_all (own_call ph) (Exists (edited_path ph) # cs)" by simp
    then show ?thesis by blast
  next
    case False
    with a show ?thesis by simp
  qed
  then obtain cs1 where c1: "calls s1 = calls s @ cs1" "list_all (own_call ph) cs1" by blast
  show ?thesis
  proof (cases "live_photo ph \<and> (\<exists>v. r1 = Inr v)")
    case False
    with assms a have "s' = s1"
      by (auto simp: export_other_variants_def split: sum.splits if_splits)
    with c1 show ?thesis by blast
  next
    case True
    obtain r2 s2 where c: "export_photo_variant E ph (live_photo_path ph) False True s1 = (r2, s2)"
      by (cases "export_photo_variant E ph (live_photo_path ph) False True s1")
    with assms a True have s': "s' = s2"
      by (auto simp: export_other_variants_def split: sum.splits)
    from export_photo_variant_calls [OF c] obtain cs where
      "calls s2 = calls s1 @ Exists (live_photo_path ph) # cs" "list_all (own_call ph) cs" by blast
    then have "calls s' = calls s @ (cs1 @ Exists (live_photo_path ph) # cs) \<and>
       list_all (own_call ph) (cs1 @ Exists (live_photo_path ph) # cs)"
      unfolding s' using c1 by simp
    then show ?thesis by blast
  qed
qed

lemma call_makedirs_calls:
  assumes "call_makedirs E p s = (r, s')"
  shows "calls s' = calls s @ [Makedirs p]"
  using assms by (auto simp: call_makedirs_def Let_def split: prod.splits)

lemma process_photo_calls:
  assumes "process_photo E ph s = (r, s')"
  shows "\<exists>cs. calls s' = calls s @ Makedirs (year_month_path ph) # cs \<and>
           list_all (own_call ph) cs \<and>
           (r = Inr () \<longrightarrow> (\<exists>cs'. cs = Exists (original_path ph) # cs'))"
proof -
  obtain r0 s0 where m: "call_makedirs E (year_month_path ph) s = (r0, s0)"
    by (cases "call_makedirs E (year_month_path ph) s")
  note c0 = call_makedirs_calls [OF m]
  show ?thesis
  proof (cases r0)
    case (Some x)
    with assms m have "s' = s0" "r = Inl x" by (simp_all add: process_photo_def)
    with c0 show ?thesis by simp
  next
    case None
    obtain r1 s1 where o: "export_photo_variant E ph (original_path ph) False False s0 = (r1, s1)"
      by (cases "export_photo_variant E ph (original_path ph) False False s0")
    from export_photo_variant_calls [OF o] obtain cs1 where
      c1: "calls s1 = calls s0 @ Exists (original_path ph) # cs1" "list_all (own_call ph) cs1"
      by blast
    show ?thesis
    proof (cases "r1 = Inr False")
      case False
      with assms m None o have "s' = s1"
        by (auto simp: process_photo_def split: sum.splits if_splits)
      then have "calls s' = calls s @ Makedirs (year_month_path ph) # (Exists (original_path ph) # cs1) \<and>
         list_all (own_call ph) (Exists (original_path ph) # cs1)"
        using c0 c1 by simp
      then show ?thesis by blast
    next
      case True
      with assms m None o have "export_other_variants E ph s1 = (r, s')"
        by (simp add: process_photo_def)
      from export_other_variants_calls [OF this] obtain cs2 where
        "calls s' = calls s1 @ cs2" "list_all (own_call ph) cs2" by blast
      then have "calls s' = calls s @ Makedirs (year_month_path ph) #
                   (Exists (original_path ph) # (cs1 @ cs2)) \<and>
         list_all (own_call ph) (Exists (original_path ph) # (cs1 @ cs2))"
        using c0 c1 by simp
      then show ?thesis by blast
    qed
  qed
qed

lemma own_call_exports_of: "own_call ph c \<Longrightarrow> ph \<in> set phs \<Longrightarrow> exports_of phs c"
  by (cases c) auto

lemma exports_of_mono: "exports_of phs c \<Longrightarrow> set phs \<subseteq> set phs' \<Longrightarrow> exports_of phs' c"
  by (cases c) auto

lemma own_call_not_makedirs: "list_all (own_call ph) cs \<Longrightarrow> filter is_makedirs_call cs = []"
proof (induction cs)
  case Nil
  then show ?case by simp
next
  case (Cons c cs)
  then show ?case by (cases c) auto
qed

lemma process_photos_started:
  "process_photos E phs s = (r, s') \<Longrightarrow>
     \<exists>k cs. k \<le> length phs \<and> (r = Inr () \<longrightarrow> k = length phs) \<and>
       makedirs_calls s' =
         makedirs_calls s @ map (\<lambda>ph. Makedirs (year_month_path ph)) (take k phs) \<and>
       calls s' = calls s @ cs \<and> list_all (exports_of (take k phs)) cs"
proof (induction phs arbitrary: s)
  case Nil
  then show ?case by simp
next
  case (Cons ph phs)
  obtain r1 s1 where p: "process_photo E ph s = (r1, s1)" by (cases "process_photo E ph s")
  from process_photo_calls [OF p] obtain cs1 where
    c1: "calls s1 = calls s @ Makedirs (year_month_path ph) # cs1" "list_all (own_call ph) cs1"
    by blast
  have m1: "makedirs_calls s1 = makedirs_calls s @ [Makedirs (year_month_path ph)]"
    unfolding makedirs_calls_def c1(1) using own_call_not_makedirs [OF c1(2)] by simp
  have e1: "list_all (exports_of (ph # any)) (Makedirs (year_month_path ph) # cs1)" for any
    using c1(2) by (auto simp: list_all_iff intro: own_call_exports_of)
  show ?case
  proof (cases r1)
    case (Inl x)
    with Cons.prems p have s': "s' = s1" "r = Inl x" by simp_all
    have "Suc 0 \<le> length (ph # phs) \<and> (r = Inr () \<longrightarrow> Suc 0 = length (ph # phs)) \<and>
       makedirs_calls s' =
         makedirs_calls s @ map (\<lambda>ph. Makedirs (year_month_path ph)) (take (Suc 0) (ph # phs)) \<and>
       calls s' = calls s @ (Makedirs (year_month_path ph) # cs1) \<and>
       list_all (exports_of (take (Suc 0) (ph # phs))) (Makedirs (year_month_path ph) # cs1)"
      using s' m1 c1(1) e1 [of "[]"] by simp
    then show ?thesis by blast
  next
    case (Inr u)
    with Cons.prems p have "process_photos E phs s1 = (r, s')" by simp
    from Cons.IH [OF this] obtain k cs where
      k: "k \<le> length phs" "r = Inr () \<longrightarrow> k = length phs"
      "makedirs_calls s' =
         makedirs_calls s1 @ map (\<lambda>ph. Makedirs (year_month_path ph)) (take k phs)"
      "calls s' = calls s1 @ cs" "list_all (exports_of (take k phs)) cs"
      by blast
    have e2: "list_all (exports_of (ph # take k phs)) cs"
      using k(5) by (auto simp: list_all_iff intro: exports_of_mono)
    have "Suc k \<le> length (ph # phs) \<and> (r = Inr () \<longrightarrow> Suc k = length (ph # phs)) \<and>
       makedirs_calls s' =
         makedirs_calls s @ map (\<lambda>ph. Makedirs (year_month_path ph)) (take (Suc k) (ph # phs)) \<and>
       calls s' = calls s @ ((Makedirs (year_month_path ph) # cs1) @ cs) \<and>
       list_all (exports_of (take (Suc k) (ph # phs))) ((Makedirs (year_month_path ph) # cs1) @ cs)"
      using k(1,2,3,4) m1 c1(1) e1 [of "take k phs"] e2 by simp
    then show ?thesis by blast
  qed
qed

lemma process_photos_finished:
  "process_photos E phs s = (Inr (), s') \<Longrightarrow>
     \<exists>css. calls s' = calls s @ concat (map2 photo_block phs css) \<and>
       list_all2 (\<lambda>ph cs. list_all (own_call ph) cs) phs css"
proof (induction phs arbitrary: s)
  case Nil
  then show ?case by simp
next
  case (Cons ph phs)
  obtain r1 s1 where p: "process_photo E ph s = (r1, s1)" by (cases "process_photo E ph s")
  with Cons.prems have r1: "r1 = Inr ()" and rest: "process_photos E phs s1 = (Inr (), s')"
    by (auto split: sum.splits)
  from process_photo_calls [OF p] r1 obtain cs1 where
    c1: "calls s1 = calls s @ Makedirs (year_month_path ph) # Exists (original_path ph) # cs1"
    "list_all (own_call ph) cs1"
    by auto
  from Cons.IH [OF rest] obtain css where
    c: "calls s' = calls s1 @ concat (map2 photo_block phs css)"
    "list_all2 (\<lambda>ph cs. list_all (own_call ph) cs) phs css"
    by blast
  have "calls s' = calls s @ concat (map2 photo_block (ph # phs) (cs1 # css)) \<and>
       list_all2 (\<lambda>ph cs. list_all (own_call ph) cs) (ph # phs) (cs1 # css)"
    using c c1 by (simp add: photo_block_def)
  then show ?case by blast
qed

section \<open>Target paths\<close>

lemma digit_char_digit: "n < 10 \<Longrightarrow> digit_char n \<in> set ''0123456789''"
  unfolding digit_char_def by (rule nth_mem) simp

lemma str_nat_digits: "str_nat n \<noteq> [] \<and> set (str_nat n) \<subseteq> set ''0123456789''"
proof (induction n rule: str_nat.induct)
  case (1 n)
  show ?case
  proof (cases "n < 10")
    case True
    then show ?thesis using digit_char_digit [of n] by (subst str_nat.simps, subst str_nat.simps) simp
  next
    case False
    have "n mod 10 < 10" by simp
    from digit_char_digit [OF this] "1" [OF False] show ?thesis
      by (subst str_nat.simps, subst str_nat.simps) (simp add: False)
  qed
qed

lemma format_02_digits: "format_02 n \<noteq> [] \<and> set (format_02 n) \<subseteq> set ''0123456789''"
  using str_nat_digits [of n] by (auto simp: format_02_def)

lemma endswith_slash: "endswith a ''/'' \<longleftrightarrow> a \<noteq> [] \<and> last a = CHR ''/''"
proof (cases a rule: rev_cases)
  case Nil
  then show ?thesis by (simp add: endswith_def)
next
  case (snoc xs x)
  then show ?thesis by (auto simp: endswith_def)
qed

lemma startswith_slash: "startswith b ''/'' \<longleftrightarrow> b \<noteq> [] \<and> hd b = CHR ''/''"
  by (cases b) (auto simp: startswith_def)

lemma join_last:
  assumes "b \<noteq> []" "CHR ''/'' \<notin> set b"
  shows "join a b \<noteq> [] \<and> last (join a b) = last b"
proof -
  have "\<not> startswith b ''/''" using assms by (cases b) (auto simp: startswith_slash)
  then show ?thesis using assms(1) by (simp add: join_def)
qed

lemma year_month_path_shape:
  "year_month_path ph \<noteq> [] \<and> last (year_month_path ph) \<noteq> CHR ''/''"
proof -
  let ?b = "format_02 (month (date ph))"
  have b: "?b \<noteq> []" "CHR ''/'' \<notin> set ?b" using format_02_digits [of "month (date ph)"] by auto
  then have "last ?b \<in> set ?b" by simp
  with b(2) have "last ?b \<noteq> CHR ''/''" by metis
  with join_last [OF b] show ?thesis by (simp add: year_month_path_def)
qed

lemma rstrip_slash_snoc:
  assumes "y \<noteq> []" "last y \<noteq> CHR ''/''"
  shows "rstrip_slash (y @ ''/'') = y"
proof -
  from assms obtain ys x where y: "y = ys @ [x]" "x \<noteq> CHR ''/''"
    by (metis append_butlast_last_id)
  show ?thesis unfolding y by (simp add: rstrip_slash_def y(2))
qed

lemma join_dirname_basename:
  assumes y: "y \<noteq> []" "last y \<noteq> CHR ''/''" and fn: "CHR ''/'' \<notin> set fn"
  shows "join y fn = y @ ''/'' @ fn" "dirname (join y fn) = y" "basename (join y fn) = fn"
    "join (dirname (join y fn)) (basename (join y fn)) = join y fn"
proof -
  have ns: "\<not> startswith fn ''/''" using fn by (cases fn) (auto simp: startswith_slash)
  have ne: "\<not> endswith y ''/''" using y by (simp add: endswith_slash)
  show j: "join y fn = y @ ''/'' @ fn" using ns ne y(1) by (simp add: join_def)
  have r: "rfind (y @ CHR ''/'' # fn) CHR ''/'' = int (length y)"
    using fn by (rule rfind_last)
  have hd: "take (Suc (length y)) (y @ CHR ''/'' # fn) = y @ ''/''" by simp
  have "y @ ''/'' \<noteq> replicate (length (y @ ''/'')) CHR ''/''"
  proof
    assume "y @ ''/'' = replicate (length (y @ ''/'')) CHR ''/''"
    then have "set (y @ ''/'') \<subseteq> {CHR ''/''}" by (metis set_replicate_conv_if subset_refl empty_subsetI)
    moreover have "last y \<in> set y" using y(1) by simp
    ultimately show False using y(2) by auto
  qed
  then show d: "dirname (join y fn) = y"
    unfolding j dirname_def using r hd rstrip_slash_snoc [OF y]
    by (simp add: Let_def nat_add_distrib)
  show b: "basename (join y fn) = fn"
    unfolding j basename_def using r by (simp add: nat_add_distrib)
  show "join (dirname (join y fn)) (basename (join y fn)) = join y fn"
    unfolding d b ..
qed

lemma re_search_img_subset: "re_search_img f = Some m \<Longrightarrow> set m \<subseteq> set f"
  using re_search_img_Some [of f m] by auto

lemma splitext_subset: "set (fst (splitext f)) \<subseteq> set f" "set (snd (splitext f)) \<subseteq> set f"
  by (auto simp: splitext_def Let_def dest: in_set_takeD in_set_dropD)

lemma extract_img_pattern_subset: "set (extract_img_pattern f) \<subseteq> set f"
  using re_search_img_subset [of f] splitext_subset(2) [of f]
  by (auto simp: extract_img_pattern_def split: option.splits)

section \<open>Runs on the concrete world\<close>

lemma variant_target_rejoin:
  assumes "CHR ''/'' \<notin> set (original_filename ph)" and "t \<in> set (variant_targets ph)"
  shows "join (dirname t) (basename t) = t"
proof -
  let ?o = "extract_img_pattern (original_filename ph)"
  have o: "CHR ''/'' \<notin> set ?o" using assms(1) extract_img_pattern_subset by blast
  have e: "CHR ''/'' \<notin> set (fst (splitext ?o) @ ''-edited'' @ snd (splitext ?o))"
    using o splitext_subset [of ?o] by auto
  have l: "CHR ''/'' \<notin> set (get_live_photo_name ?o)"
    using o splitext_subset [of ?o] by (auto simp: get_live_photo_name_def)
  note y = year_month_path_shape [of ph, THEN conjunct1] year_month_path_shape [of ph, THEN conjunct2]
  from assms(2) consider "t = original_path ph" | "t = edited_path ph" | "t = live_photo_path ph"
    by (auto simp: variant_targets_def split: if_splits)
  then show ?thesis
  proof cases
    case 1
    then show ?thesis unfolding original_path_def using join_dirname_basename(4) [OF y o] by simp
  next
    case 2
    then show ?thesis unfolding edited_path_def using join_dirname_basename(4) [OF y e]
      by (simp add: Let_def split: prod.splits)
  next
    case 3
    then show ?thesis unfolding live_photo_path_def using join_dirname_basename(4) [OF y l] by simp
  qed
qed

lemma sim_match_same_content:
  assumes "files w a = Some g" "files w b = Some f" "content f = content g"
  shows "file_hashes_match (sim_env 0) w a b = Inr True"
  using assms
  by (simp add: file_hashes_match_def file_hash_equal_def file_hash_def perceptual_equal_def
      heic_to_pil_def sim_env_def sim_read_def sim_image_def sim_phash_def Let_def)

lemma sim_fresh_variant:
  assumes t: "files (world s) t = None"
    and src: "(if e then path_edited ph else path ph) = Some src"
    and f: "files (world s) src = Some f"
    and j: "join (dirname t) (basename t) = t"
  shows "\<exists>s'. export_photo_variant (sim_env 0) ph t e l s = (Inr False, s') \<and>
           files (world s') = (files (world s))(t \<mapsto>
              \<lparr>content = content f, mtime = Some (timestamp (date ph))\<rparr>) \<and>
           report s' = report (update_report e l s) \<and>
           failed_files s' = failed_files s"
  using assms
  by (simp add: prog_defs sim_env_def sim_exists_def sim_export_def sim_write_def sim_utime_def
      Let_def)

lemma sim_duplicate_variant:
  assumes "original_in_place (world s) ph"
  shows "export_photo_variant (sim_env 0) ph (original_path ph) False False s =
           (Inr True, skip_duplicate (log_call (Exists (original_path ph)) s))"
proof -
  from assms obtain src g f where p: "path ph = Some src" "files (world s) src = Some g"
    "files (world s) (original_path ph) = Some f" "content f = content g"
    by (auto simp: original_in_place_def split: option.splits)
  have m: "file_hashes_match_arg (sim_env 0) (world s) (path ph) (original_path ph) = Inr True"
    using sim_match_same_content [OF p(2,3,4)] by (simp add: file_hashes_match_arg_def p(1))
  have x: "os_path_exists (sim_env 0) (world s) (original_path ph)"
    by (simp add: sim_env_def sim_exists_def p(3))
  show ?thesis
    by (simp add: export_photo_variant_def check_exists_def x m)
qed


lemma update_report_other:
  "exported_total (report (update_report e l s)) = exported_total (report s) + 1"
  "originals_exported (report (update_report True l s)) = originals_exported (report s)"
  "originals_exported (report (update_report False True s)) = originals_exported (report s)"
  "originals_exported (report (update_report False False s)) = originals_exported (report s) + 1"
  "duplicates_skipped (report (update_report e l s)) = duplicates_skipped (report s)"
  "duplicates_created (report (update_report e l s)) = duplicates_created (report s)"
  by (simp_all add: update_report_def exported_total_def)

lemma sim_other_variants_fresh:
  assumes slash: "CHR ''/'' \<notin> set (original_filename ph)"
    and ed: "hasadjustments ph \<Longrightarrow> \<exists>src f. path_edited ph = Some src \<and> files (world s) src = Some f"
    and li: "live_photo ph \<Longrightarrow> \<exists>src f. path ph = Some src \<and> files (world s) src = Some f"
    and none: "\<forall>t\<in>set (tl (variant_targets ph)). files (world s) t = None"
    and dis: "distinct (tl (variant_targets ph))"
  shows "\<exists>s'. export_other_variants (sim_env 0) ph s = (Inr (), s') \<and>
           exported_total (report s') =
             exported_total (report s) + int (length (tl (variant_targets ph))) \<and>
           originals_exported (report s') = originals_exported (report s) \<and>
           duplicates_skipped (report s') = duplicates_skipped (report s) \<and>
           duplicates_created (report s') = duplicates_created (report s) \<and>
           failed_files s' = failed_files s \<and>
           (\<forall>q. q \<notin> set (tl (variant_targets ph)) \<longrightarrow> files (world s') q = files (world s) q)"
proof -
  let ?E = "sim_env 0"
  have rj: "t \<in> set (tl (variant_targets ph)) \<Longrightarrow> join (dirname t) (basename t) = t" for t
    using variant_target_rejoin [OF slash, of t] by (simp add: variant_targets_def)
  have "\<exists>s1. (if hasadjustments ph
               then export_photo_variant ?E ph (edited_path ph) True False s
               else (Inr False, s)) = (Inr False, s1) \<and>
           exported_total (report s1) =
             exported_total (report s) + (if hasadjustments ph then 1 else 0) \<and>
           originals_exported (report s1) = originals_exported (report s) \<and>
           duplicates_skipped (report s1) = duplicates_skipped (report s) \<and>
           duplicates_created (report s1) = duplicates_created (report s) \<and>
           failed_files s1 = failed_files s \<and>
           (\<forall>q. q \<noteq> edited_path ph \<longrightarrow> files (world s1) q = files (world s) q) \<and>
           (\<not> hasadjustments ph \<longrightarrow> world s1 = world s)"
  proof (cases "hasadjustments ph")
    case False
    then show ?thesis by simp
  next
    case True
    from ed [OF True] obtain src f where src: "path_edited ph = Some src"
      "files (world s) src = Some f" by blast
    have t: "edited_path ph \<in> set (tl (variant_targets ph))"
      using True by (simp add: variant_targets_def)
    have n: "files (world s) (edited_path ph) = None" using none t by blast
    from sim_fresh_variant [of s "edited_path ph" True ph src f False, OF n _ src(2) rj [OF t]] src(1)
    obtain s1 where "export_photo_variant ?E ph (edited_path ph) True False s = (Inr False, s1)"
      "files (world s1) = (files (world s))(edited_path ph \<mapsto>
              \<lparr>content = content f, mtime = Some (timestamp (date ph))\<rparr>)"
      "report s1 = report (update_report True False s)" "failed_files s1 = failed_files s"
      by auto
    then show ?thesis using True by (simp add: update_report_other)
  qed
  then obtain s1 where s1:
    "(if hasadjustments ph then export_photo_variant ?E ph (edited_path ph) True False s
      else (Inr False, s)) = (Inr False, s1)"
    "exported_total (report s1) = exported_total (report s) + (if hasadjustments ph then 1 else 0)"
    "originals_exported (report s1) = originals_exported (report s)"
    "duplicates_skipped (report s1) = duplicates_skipped (report s)"
    "duplicates_created (report s1) = duplicates_created (report s)"
    "failed_files s1 = failed_files s"
    "\<forall>q. q \<noteq> edited_path ph \<longrightarrow> files (world s1) q = files (world s) q"
    "\<not> hasadjustments ph \<longrightarrow> world s1 = world s"
    by blast
  show ?thesis
  proof (cases "live_photo ph")
    case False
    then have "export_other_variants ?E ph s = (Inr (), s1)"
      by (simp add: export_other_variants_def s1(1))
    moreover have "length (tl (variant_targets ph)) = (if hasadjustments ph then 1 else 0)"
      using False by (simp add: variant_targets_def)
    moreover have "\<forall>q. q \<notin> set (tl (variant_targets ph)) \<longrightarrow> files (world s1) q = files (world s) q"
      using s1(7,8) by (auto simp: variant_targets_def)
    ultimately show ?thesis using s1(2-6) by auto
  next
    case True
    from li [OF True] obtain src f where src: "path ph = Some src"
      "files (world s) src = Some f" by blast
    have t: "live_photo_path ph \<in> set (tl (variant_targets ph))"
      using True by (simp add: variant_targets_def)
    have ne: "hasadjustments ph \<Longrightarrow> live_photo_path ph \<noteq> edited_path ph"
      using dis True by (auto simp: variant_targets_def)
    have n0: "files (world s) (live_photo_path ph) = None" using none t by blast
    have n: "files (world s1) (live_photo_path ph) = None"
    proof (cases "hasadjustments ph")
      case True
      with ne s1(7) n0 show ?thesis by simp
    next
      case False
      with s1(8) n0 show ?thesis by simp
    qed
    have sf: "files (world s1) src = Some f"
    proof (cases "hasadjustments ph")
      case True
      have "edited_path ph \<in> set (tl (variant_targets ph))"
        using True by (simp add: variant_targets_def)
      with none have "files (world s) (edited_path ph) = None" by blast
      with src(2) have "src \<noteq> edited_path ph" by auto
      with s1(7) src(2) show ?thesis by simp
    next
      case False
      with s1(8) src(2) show ?thesis by simp
    qed
    from sim_fresh_variant [of s1 "live_photo_path ph" False ph src f True, OF n _ sf rj [OF t]] src(1)
    obtain s2 where s2: "export_photo_variant ?E ph (live_photo_path ph) False True s1 = (Inr False, s2)"
      "files (world s2) = (files (world s1))(live_photo_path ph \<mapsto>
              \<lparr>content = content f, mtime = Some (timestamp (date ph))\<rparr>)"
      "report s2 = report (update_report False True s1)" "failed_files s2 = failed_files s1"
      by auto
    have "export_other_variants ?E ph s = (Inr (), s2)"
      using True by (simp add: export_other_variants_def s1(1) s2(1))
    moreover have "length (tl (variant_targets ph)) = (if hasadjustments ph then 2 else 1)"
      using True by (simp add: variant_targets_def)
    moreover have "\<forall>q. q \<notin> set (tl (variant_targets ph)) \<longrightarrow> files (world s2) q = files (world s) q"
      using s1(7,8) s2(2) True by (auto simp: variant_targets_def)
    ultimately show ?thesis using s1(2-6) s2(3,4) by (auto simp: update_report_other)
  qed
qed

lemma sim_makedirs_step:
  "call_makedirs (sim_env 0) p s = (None, log_call (Makedirs p) s)"
  by (simp add: call_makedirs_def sim_env_def sim_makedirs_def Let_def)

lemma sim_process_fresh:
  assumes slash: "CHR ''/'' \<notin> set (original_filename ph)"
    and srcs: "sources_readable (world s) ph"
    and none: "\<forall>t\<in>set (variant_targets ph). files (world s) t = None"
    and dis: "distinct (variant_targets ph)"
  shows "\<exists>s'. process_photo (sim_env 0) ph s = (Inr (), s') \<and>
           exported_total (report s') =
             exported_total (report s) + int (length (variant_targets ph)) \<and>
           originals_exported (report s') = originals_exported (report s) + 1 \<and>
           duplicates_skipped (report s') = duplicates_skipped (report s) \<and>
           duplicates_created (report s') = duplicates_created (report s) \<and>
           failed_files s' = failed_files s \<and>
           (\<forall>q. q \<notin> set (variant_targets ph) \<longrightarrow> files (world s') q = files (world s) q) \<and>
           original_in_place (world s') ph"
proof -
  let ?E = "sim_env 0"
  let ?o = "original_path ph"
  define s0 where "s0 = log_call (Makedirs (year_month_path ph)) s"
  have s0: "world s0 = world s" "report s0 = report s" "failed_files s0 = failed_files s"
    by (simp_all add: s0_def)
  from srcs obtain src g where src: "path ph = Some src" "files (world s) src = Some g"
    by (auto simp: sources_readable_def split: option.splits)
  have vt: "variant_targets ph = ?o # tl (variant_targets ph)"
    by (simp add: variant_targets_def)
  have o_in: "?o \<in> set (variant_targets ph)" by (simp add: variant_targets_def)
  have no: "files (world s0) ?o = None" using none o_in s0(1) by simp
  have so: "src \<noteq> ?o" using src(2) none o_in by auto
  from sim_fresh_variant [of s0 ?o False ph src g False, OF no _ _ variant_target_rejoin [OF slash o_in]]
    src s0(1)
  obtain s1 where s1: "export_photo_variant ?E ph ?o False False s0 = (Inr False, s1)"
    "files (world s1) = (files (world s))(?o \<mapsto>
        \<lparr>content = content g, mtime = Some (timestamp (date ph))\<rparr>)"
    "report s1 = report (update_report False False s0)" "failed_files s1 = failed_files s0"
    by auto
  have tl_sub: "set (tl (variant_targets ph)) \<subseteq> set (variant_targets ph)"
    by (metis vt set_subset_Cons)
  have o_notin: "?o \<notin> set (tl (variant_targets ph))" using dis vt by (metis distinct.simps(2))
  have ed: "hasadjustments ph \<Longrightarrow> \<exists>src f. path_edited ph = Some src \<and> files (world s1) src = Some f"
  proof -
    assume "hasadjustments ph"
    with srcs obtain e f where e: "path_edited ph = Some e" "files (world s) e = Some f"
      by (auto simp: sources_readable_def split: option.splits)
    then have "e \<noteq> ?o" using none o_in by auto
    with e show ?thesis by (simp add: s1(2))
  qed
  have li: "live_photo ph \<Longrightarrow> \<exists>src f. path ph = Some src \<and> files (world s1) src = Some f"
    using src so by (simp add: s1(2))
  have none1: "\<forall>t\<in>set (tl (variant_targets ph)). files (world s1) t = None"
    using none tl_sub o_notin by (auto simp: s1(2))
  have dis1: "distinct (tl (variant_targets ph))" using dis by (rule distinct_tl)
  from sim_other_variants_fresh [OF slash ed li none1 dis1]
  obtain s2 where s2: "export_other_variants ?E ph s1 = (Inr (), s2)"
    "exported_total (report s2) = exported_total (report s1) + int (length (tl (variant_targets ph)))"
    "originals_exported (report s2) = originals_exported (report s1)"
    "duplicates_skipped (report s2) = duplicates_skipped (report s1)"
    "duplicates_created (report s2) = duplicates_created (report s1)"
    "failed_files s2 = failed_files s1"
    "\<forall>q. q \<notin> set (tl (variant_targets ph)) \<longrightarrow> files (world s2) q = files (world s1) q"
    by blast
  have run: "process_photo ?E ph s = (Inr (), s2)"
    by (simp add: process_photo_def sim_makedirs_step s0_def [symmetric] s1(1) s2(1))
  have len: "int (length (variant_targets ph)) = 1 + int (length (tl (variant_targets ph)))"
    by (subst vt) simp
  have fr: "\<forall>q. q \<notin> set (variant_targets ph) \<longrightarrow> files (world s2) q = files (world s) q"
  proof (intro allI impI)
    fix q assume q: "q \<notin> set (variant_targets ph)"
    then have "q \<notin> set (tl (variant_targets ph))" "q \<noteq> ?o" using tl_sub o_in by auto
    then show "files (world s2) q = files (world s) q" using s2(7) by (simp add: s1(2))
  qed
  have "files (world s2) ?o = Some \<lparr>content = content g, mtime = Some (timestamp (date ph))\<rparr>"
    using s2(7) o_notin by (simp add: s1(2))
  moreover have "files (world s2) src = Some g"
  proof -
    have "src \<notin> set (variant_targets ph)" using src(2) none by auto
    with fr src(2) show ?thesis by simp
  qed
  ultimately have ip: "original_in_place (world s2) ph"
    by (simp add: original_in_place_def src(1))
  have r1: "exported_total (report s1) = exported_total (report s) + 1"
    "originals_exported (report s1) = originals_exported (report s) + 1"
    "duplicates_skipped (report s1) = duplicates_skipped (report s)"
    "duplicates_created (report s1) = duplicates_created (report s)"
    unfolding s1(3) by (simp_all add: update_report_other s0)
  have c1: "exported_total (report s2) =
             exported_total (report s) + int (length (variant_targets ph))"
    unfolding s2(2) r1 len by simp
  have c2: "originals_exported (report s2) = originals_exported (report s) + 1"
    unfolding s2(3) r1 ..
  have c3: "duplicates_skipped (report s2) = duplicates_skipped (report s)"
    unfolding s2(4) r1 ..
  have c4: "duplicates_created (report s2) = duplicates_created (report s)"
    unfolding s2(5) r1 ..
  have c5: "failed_files s2 = failed_files s"
    unfolding s2(6) s1(4) s0 ..
  show ?thesis
    by (rule exI [of _ s2]) (intro conjI run c1 c2 c3 c4 c5 fr ip)
qed

lemma sim_process_duplicate:
  assumes "original_in_place (world s) ph"
  shows "process_photo (sim_env 0) ph s =
           (Inr (), skip_duplicate (log_call (Exists (original_path ph))
                      (log_call (Makedirs (year_month_path ph)) s)))"
proof -
  have "original_in_place (world (log_call (Makedirs (year_month_path ph)) s)) ph"
    using assms by simp
  from sim_duplicate_variant [OF this] show ?thesis
    by (simp add: process_photo_def sim_makedirs_step)
qed

lemma sources_readable_kept:
  assumes "\<forall>q. files w q \<noteq> None \<longrightarrow> files w' q = files w q" and "sources_readable w ph"
  shows "sources_readable w' ph"
  using assms by (auto simp: sources_readable_def split: option.splits)

lemma original_in_place_kept:
  assumes "\<forall>q. files w q \<noteq> None \<longrightarrow> files w' q = files w q" and "original_in_place w ph"
  shows "original_in_place w' ph"
proof -
  from assms(2) obtain src g f where p: "path ph = Some src" "files w src = Some g"
    "files w (original_path ph) = Some f" "content f = content g"
    by (auto simp: original_in_place_def split: option.splits)
  from assms(1) p(2,3) have "files w' src = Some g" "files w' (original_path ph) = Some f"
    by auto
  with p(1,4) show ?thesis by (simp add: original_in_place_def)
qed

lemma sim_first_run:
  assumes "\<forall>ph\<in>set phs. CHR ''/'' \<notin> set (original_filename ph) \<and> sources_readable (world s) ph"
    and "\<forall>t\<in>set (concat (map variant_targets phs)). files (world s) t = None"
    and "distinct (concat (map variant_targets phs))"
  shows "\<exists>s'. process_photos (sim_env 0) phs s = (Inr (), s') \<and>
           exported_total (report s') =
             exported_total (report s) + int (length (concat (map variant_targets phs))) \<and>
           originals_exported (report s') = originals_exported (report s) + int (length phs) \<and>
           duplicates_skipped (report s') = duplicates_skipped (report s) \<and>
           duplicates_created (report s') = duplicates_created (report s) \<and>
           failed_files s' = failed_files s \<and>
           (\<forall>q. q \<notin> set (concat (map variant_targets phs)) \<longrightarrow>
                files (world s') q = files (world s) q) \<and>
           (\<forall>ph\<in>set phs. original_in_place (world s') ph)"
  using assms
proof (induction phs arbitrary: s)
  case Nil
  then show ?case by simp
next
  case (Cons ph phs)
  let ?T = "concat (map variant_targets phs)"
  from Cons.prems(1) have slash: "CHR ''/'' \<notin> set (original_filename ph)"
    and srcs: "sources_readable (world s) ph" by auto
  from Cons.prems(2) have none: "\<forall>t\<in>set (variant_targets ph). files (world s) t = None"
    and noneT: "\<forall>t\<in>set ?T. files (world s) t = None" by auto
  from Cons.prems(3) have dis: "distinct (variant_targets ph)" and disT: "distinct ?T"
    and disj: "set (variant_targets ph) \<inter> set ?T = {}" by auto
  from sim_process_fresh [OF slash srcs none dis]
  obtain s1 where s1: "process_photo (sim_env 0) ph s = (Inr (), s1)"
    "exported_total (report s1) = exported_total (report s) + int (length (variant_targets ph))"
    "originals_exported (report s1) = originals_exported (report s) + 1"
    "duplicates_skipped (report s1) = duplicates_skipped (report s)"
    "duplicates_created (report s1) = duplicates_created (report s)"
    "failed_files s1 = failed_files s"
    "\<forall>q. q \<notin> set (variant_targets ph) \<longrightarrow> files (world s1) q = files (world s) q"
    "original_in_place (world s1) ph"
    by blast
  have keep1: "\<forall>q. files (world s) q \<noteq> None \<longrightarrow> files (world s1) q = files (world s) q"
  proof (intro allI impI)
    fix q assume "files (world s) q \<noteq> None"
    with none have "q \<notin> set (variant_targets ph)" by auto
    with s1(7) show "files (world s1) q = files (world s) q" by blast
  qed
  have p1: "\<forall>ph\<in>set phs. CHR ''/'' \<notin> set (original_filename ph) \<and> sources_readable (world s1) ph"
    using Cons.prems(1) sources_readable_kept [OF keep1] by auto
  have p2: "\<forall>t\<in>set ?T. files (world s1) t = None"
  proof
    fix t assume t: "t \<in> set ?T"
    with disj have "t \<notin> set (variant_targets ph)" by blast
    with s1(7) have "files (world s1) t = files (world s) t" by blast
    moreover from noneT t have "files (world s) t = None" by blast
    ultimately show "files (world s1) t = None" by simp
  qed
  from Cons.IH [OF p1 p2 disT]
  obtain s2 where s2: "process_photos (sim_env 0) phs s1 = (Inr (), s2)"
    "exported_total (report s2) = exported_total (report s1) + int (length ?T)"
    "originals_exported (report s2) = originals_exported (report s1) + int (length phs)"
    "duplicates_skipped (report s2) = duplicates_skipped (report s1)"
    "duplicates_created (report s2) = duplicates_created (report s1)"
    "failed_files s2 = failed_files s1"
    "\<forall>q. q \<notin> set ?T \<longrightarrow> files (world s2) q = files (world s1) q"
    "\<forall>ph\<in>set phs. original_in_place (world s2) ph"
    by blast
  have keep2: "\<forall>q. files (world s1) q \<noteq> None \<longrightarrow> files (world s2) q = files (world s1) q"
  proof (intro allI impI)
    fix q assume "files (world s1) q \<noteq> None"
    with p2 have "q \<notin> set ?T" by auto
    with s2(7) show "files (world s2) q = files (world s1) q" by blast
  qed
  have run: "process_photos (sim_env 0) (ph # phs) s = (Inr (), s2)"
    by (simp add: s1(1) s2(1))
  have c1: "exported_total (report s2) =
      exported_total (report s) + int (length (concat (map variant_targets (ph # phs))))"
    unfolding s2(2) s1(2) by simp
  have c2: "originals_exported (report s2) = originals_exported (report s) + int (length (ph # phs))"
    unfolding s2(3) s1(3) by simp
  have c3: "duplicates_skipped (report s2) = duplicates_skipped (report s)"
    unfolding s2(4) s1(4) ..
  have c4: "duplicates_created (report s2) = duplicates_created (report s)"
    unfolding s2(5) s1(5) ..
  have c5: "failed_files s2 = failed_files s"
    unfolding s2(6) s1(6) ..
  have c6: "\<forall>q. q \<notin> set (concat (map variant_targets (ph # phs))) \<longrightarrow>
                files (world s2) q = files (world s) q"
    using s1(7) s2(7) by simp
  have c7: "\<forall>ph'\<in>set (ph # phs). original_in_place (world s2) ph'"
    using original_in_place_kept [OF keep2 s1(8)] s2(8) by simp
  show ?case
    by (rule exI [of _ s2]) (intro conjI run c1 c2 c3 c4 c5 c6 c7)
qed

lemma skip_step_facts:
  "world (skip_duplicate (log_call c1 (log_call c2 s))) = world s"
  "report (skip_duplicate (log_call c1 (log_call c2 s)))
     = (report s)\<lparr>duplicates_skipped := duplicates_skipped (report s) + 1\<rparr>"
  "failed_files (skip_duplicate (log_call c1 (log_call c2 s))) = failed_files s"
  by simp_all

lemma sim_second_run:
  assumes "\<forall>ph\<in>set phs. original_in_place (world s) ph"
  shows "\<exists>s'. process_photos (sim_env 0) phs s = (Inr (), s') \<and>
           world s' = world s \<and>
           report s' = (report s)\<lparr>duplicates_skipped :=
                          duplicates_skipped (report s) + int (length phs)\<rparr> \<and>
           failed_files s' = failed_files s \<and>
           export_calls s' = export_calls s"
  using assms
proof (induction phs arbitrary: s)
  case Nil
  then show ?case by simp
next
  case (Cons ph phs)
  define s1 where "s1 = skip_duplicate (log_call (Exists (original_path ph))
                      (log_call (Makedirs (year_month_path ph)) s))"
  from Cons.prems have ip: "original_in_place (world s) ph" by simp
  have st: "process_photo (sim_env 0) ph s = (Inr (), s1)"
    unfolding s1_def using sim_process_duplicate [OF ip] .
  note f = skip_step_facts [of "Exists (original_path ph)" "Makedirs (year_month_path ph)" s,
      folded s1_def]
  have ec: "export_calls s1 = export_calls s"
    by (simp add: s1_def export_calls_log)
  from Cons.prems f(1) have "\<forall>ph\<in>set phs. original_in_place (world s1) ph" by simp
  from Cons.IH [OF this]
  obtain s2 where s2: "process_photos (sim_env 0) phs s1 = (Inr (), s2)"
    "world s2 = world s1"
    "report s2 = (report s1)\<lparr>duplicates_skipped :=
                          duplicates_skipped (report s1) + int (length phs)\<rparr>"
    "failed_files s2 = failed_files s1"
    "export_calls s2 = export_calls s1"
    by blast
  have run: "process_photos (sim_env 0) (ph # phs) s = (Inr (), s2)"
    by (simp add: st s2(1))
  have c1: "world s2 = world s" unfolding s2(2) f ..
  have c2: "report s2 = (report s)\<lparr>duplicates_skipped :=
                          duplicates_skipped (report s) + int (length (ph # phs))\<rparr>"
    unfolding s2(3) f by simp
  have c5: "failed_files s2 = failed_files s" unfolding s2(4) f ..
  have c6: "export_calls s2 = export_calls s" unfolding s2(5) ec ..
  show ?case
    by (rule exI [of _ s2]) (intro conjI run c1 c2 c5 c6)
qed

section \<open>Claims about two runs\<close>

text \<open>The sample photo's paths, and its first run from the fresh state.\<close>

lemma sample_process: "photos_to_process 738700 [sample_photo] = [sample_photo]"
  by (simp add: photos_to_process_def START_DATE_def OVERLAP_PERIOD_def sample_photo_def
      sample_date_def)

lemma sample_year_month:
  "year_month_path sample_photo
     = ''/Volumes/Archive/Picture Sources 01 RAW/15. iCloud Photos/2023/06''"
  by (simp add: sample_photo_def year_month_path_def sample_date_def
     EXPORT_PATH_def join_def startswith_def endswith_def format_02_def str_nat.simps digit_char_def)

lemma sample_extract: "extract_img_pattern (original_filename sample_photo) = ''IMG_0042.jpg''"
  by (simp add: sample_photo_def extract_img_pattern_def endswith_def lower_def ascii_lower_def
      re_match_canonical_def is_digit_def)

lemma sample_targets:
  "variant_targets sample_photo =
     [sample_target,
      ''/Volumes/Archive/Picture Sources 01 RAW/15. iCloud Photos/2023/06/IMG_0042-edited.jpg'']"
proof -
  have o: "original_path sample_photo = sample_target"
    unfolding original_path_def sample_year_month sample_extract
    by (simp add: sample_target_def join_def startswith_def endswith_def)
  have e: "edited_path sample_photo =
    ''/Volumes/Archive/Picture Sources 01 RAW/15. iCloud Photos/2023/06/IMG_0042-edited.jpg''"
    unfolding edited_path_def sample_year_month sample_extract
    by (simp add: join_def startswith_def endswith_def splitext_def rfind_def)
  show ?thesis unfolding variant_targets_def o e by (simp add: sample_photo_def)
qed


lemma sample_paths:
  "original_path sample_photo = sample_target"
  "edited_path sample_photo =
    ''/Volumes/Archive/Picture Sources 01 RAW/15. iCloud Photos/2023/06/IMG_0042-edited.jpg''"
  using sample_targets by (simp_all add: variant_targets_def sample_photo_def)

lemma sample_edited_rejoin:
  "dirname ''/Volumes/Archive/Picture Sources 01 RAW/15. iCloud Photos/2023/06/IMG_0042-edited.jpg''
     = ''/Volumes/Archive/Picture Sources 01 RAW/15. iCloud Photos/2023/06''"
  "basename ''/Volumes/Archive/Picture Sources 01 RAW/15. iCloud Photos/2023/06/IMG_0042-edited.jpg''
     = ''IMG_0042-edited.jpg''"
  "join ''/Volumes/Archive/Picture Sources 01 RAW/15. iCloud Photos/2023/06'' ''IMG_0042-edited.jpg''
     = ''/Volumes/Archive/Picture Sources 01 RAW/15. iCloud Photos/2023/06/IMG_0042-edited.jpg''"
  by (simp_all add: path_defs)

lemma sample_first_run_report:
  "export_photos (sim_env 0) 738700 [sample_photo] sample_fresh = (Inr (), sample_first_run)"
  "report sample_first_run =
     \<lparr>originals_exported = 1, edits_exported = 1, live_photos_exported = 0,
      duplicates_skipped = 0, duplicates_created = 0\<rparr>"
  "original_in_place (world sample_first_run) sample_photo"
proof -
  let ?E = "sim_env 0"
  let ?ed = "''/Volumes/Archive/Picture Sources 01 RAW/15. iCloud Photos/2023/06/IMG_0042-edited.jpg''"
  define s0 where "s0 = log_call (Makedirs (year_month_path sample_photo)) sample_fresh"
  have w0: "world s0 = world sample_fresh" by (simp add: s0_def)
  have fl: "files (world sample_fresh) ''/lib/IMG_0042.jpg'' = Some \<lparr>content = ''abc'', mtime = None\<rparr>"
    "files (world sample_fresh) ''/lib/IMG_0042_edit.jpg'' = Some \<lparr>content = ''abd'', mtime = None\<rparr>"
    "files (world sample_fresh) sample_target = None"
    "files (world sample_fresh) ?ed = None"
    by (simp_all add: sample_fresh_def sim_defs sample_target_def)
  have ph: "path sample_photo = Some ''/lib/IMG_0042.jpg''"
    "path_edited sample_photo = Some ''/lib/IMG_0042_edit.jpg''"
    "hasadjustments sample_photo" "\<not> live_photo sample_photo"
    by (simp_all add: sample_photo_def)
  have rj: "join (dirname ?ed) (basename ?ed) = ?ed"
    unfolding sample_edited_rejoin ..
  from sim_fresh_variant [of s0 sample_target False sample_photo "''/lib/IMG_0042.jpg''" _ False]
    fl w0 ph sample_join
  obtain s1 where s1:
    "export_photo_variant ?E sample_photo sample_target False False s0 = (Inr False, s1)"
    "files (world s1) = (files (world s0))(sample_target \<mapsto>
        \<lparr>content = ''abc'', mtime = Some (timestamp (date sample_photo))\<rparr>)"
    "report s1 = report (update_report False False s0)"
    by auto
  have f1: "files (world s1) ?ed = None"
    "files (world s1) ''/lib/IMG_0042_edit.jpg'' = Some \<lparr>content = ''abd'', mtime = None\<rparr>"
    unfolding s1(2) w0 using fl by (simp_all add: sample_target_def)
  from sim_fresh_variant [of s1 ?ed True sample_photo "''/lib/IMG_0042_edit.jpg''" _ False,
      OF f1(1) _ f1(2) rj] ph
  obtain s2 where s2:
    "export_photo_variant ?E sample_photo ?ed True False s1 = (Inr False, s2)"
    "files (world s2) = (files (world s1))(?ed \<mapsto>
        \<lparr>content = ''abd'', mtime = Some (timestamp (date sample_photo))\<rparr>)"
    "report s2 = report (update_report True False s1)"
    by auto
  have run: "process_photo ?E sample_photo sample_fresh = (Inr (), s2)"
    by (simp add: process_photo_def sim_makedirs_step s0_def [symmetric] sample_paths s1(1)
        export_other_variants_def ph s2(1))
  then show a: "export_photos ?E 738700 [sample_photo] sample_fresh = (Inr (), sample_first_run)"
    by (simp add: sample_first_run_def export_photos_def sample_process)
  from run have eq: "sample_first_run = s2"
    by (simp add: sample_first_run_def export_photos_def sample_process)
  show "report sample_first_run =
     \<lparr>originals_exported = 1, edits_exported = 1, live_photos_exported = 0,
      duplicates_skipped = 0, duplicates_created = 0\<rparr>"
  proof -
    have "report s1 =
      \<lparr>originals_exported = 1, edits_exported = 0, live_photos_exported = 0,
       duplicates_skipped = 0, duplicates_created = 0\<rparr>"
      unfolding s1(3) by (simp add: update_report_def s0_def sample_fresh_def initial_state_def)
    then show ?thesis unfolding eq s2(3) by (simp add: update_report_def)
  qed
  have "files (world s2) ''/lib/IMG_0042.jpg'' = Some \<lparr>content = ''abc'', mtime = None\<rparr>"
    "files (world s2) sample_target =
       Some \<lparr>content = ''abc'', mtime = Some (timestamp (date sample_photo))\<rparr>"
    unfolding s2(2) s1(2) w0 using fl by (simp_all add: sample_target_def)
  then show "original_in_place (world sample_first_run) sample_photo"
    unfolding eq by (simp add: original_in_place_def ph sample_paths)
qed

text \<open>
  Claim C2, as stated, fails. The first run exports the Original and the Edited variant
  of the sample photo, two variants; the second run, on the file system the first run
  left, finds the Original in place, counts one skipped duplicate and does not look at
  the Edited variant, because the driver attempts the other variants only when the
  Original was not a duplicate (line 266).
\<close>

theorem second_run_not_one_per_variant:
  "export_photos (sim_env 0) 738700 [sample_photo] sample_fresh = (Inr (), sample_first_run) \<and>
   originals_exported (report sample_first_run) = 1 \<and>
   edits_exported (report sample_first_run) = 1 \<and>
   exported_total (report sample_first_run) = 2 \<and>
   export_photos (sim_env 0) 738700 [sample_photo] (initial_state (world sample_first_run))
     = (Inr (), sample_second_run) \<and>
   duplicates_skipped (report sample_second_run) = 1 \<and>
   exported_total (report sample_second_run) = 0 \<and>
   duplicates_skipped (report sample_second_run) \<noteq> exported_total (report sample_first_run)"
proof -
  have "\<forall>ph\<in>set [sample_photo].
          original_in_place (world (initial_state (world sample_first_run))) ph"
    using sample_first_run_report(3) by (simp add: initial_state_def)
  from sim_second_run [OF this]
  obtain s2 where s2:
    "process_photos (sim_env 0) [sample_photo] (initial_state (world sample_first_run)) = (Inr (), s2)"
    "report s2 = (report (initial_state (world sample_first_run)))\<lparr>duplicates_skipped :=
        duplicates_skipped (report (initial_state (world sample_first_run))) + int (length [sample_photo])\<rparr>"
    by blast
  have run2: "export_photos (sim_env 0) 738700 [sample_photo] (initial_state (world sample_first_run))
     = (Inr (), s2)"
    unfolding export_photos_def sample_process by (rule s2(1))
  then have eq: "sample_second_run = s2" by (simp add: sample_second_run_def)
  have r2: "duplicates_skipped (report sample_second_run) = 1"
    "exported_total (report sample_second_run) = 0"
    unfolding eq s2(2) by (simp_all add: initial_state_def exported_total_def)
  have r1: "originals_exported (report sample_first_run) = 1"
    "edits_exported (report sample_first_run) = 1"
    "exported_total (report sample_first_run) = 2"
    unfolding sample_first_run_report(2) by (simp_all add: exported_total_def)
  show ?thesis
    using sample_first_run_report(1) run2 r1 r2 unfolding eq by simp
qed

text \<open>
  Claim C2, amended. The export primitive and the file system are the concrete world of
  this theory, with written files visible at once. When every processed photo has a file
  name without a slash and readable sources, and the target paths of all variants are
  distinct and absent before the first run, then the first run exports every variant and
  the second run, on the file system the first run left, increments duplicates-skipped by
  exactly the number of processed photos, one for each Original, increments none of the
  exported counters, calls the export primitive for nothing and leaves the file system as
  it was.
\<close>

theorem second_run_skips_one_per_photo:
  assumes "\<forall>ph\<in>set (photos_to_process today library).
             CHR ''/'' \<notin> set (original_filename ph) \<and> sources_readable w ph"
    and "\<forall>t\<in>set (concat (map variant_targets (photos_to_process today library))).
             files w t = None"
    and "distinct (concat (map variant_targets (photos_to_process today library)))"
  shows "\<exists>s1 s2.
     export_photos (sim_env 0) today library (initial_state w) = (Inr (), s1) \<and>
     export_photos (sim_env 0) today library (initial_state (world s1)) = (Inr (), s2) \<and>
     exported_total (report s1)
       = int (length (concat (map variant_targets (photos_to_process today library)))) \<and>
     originals_exported (report s1) = int (length (photos_to_process today library)) \<and>
     duplicates_skipped (report s1) = 0 \<and>
     duplicates_skipped (report s2) = int (length (photos_to_process today library)) \<and>
     originals_exported (report s2) = 0 \<and> edits_exported (report s2) = 0 \<and>
     live_photos_exported (report s2) = 0 \<and> duplicates_created (report s2) = 0 \<and>
     export_calls s2 = [] \<and> failed_files s2 = [] \<and> world s2 = world s1"
proof -
  let ?phs = "photos_to_process today library"
  have w: "world (initial_state w) = w" by (simp add: initial_state_def)
  from sim_first_run [of ?phs "initial_state w"] assms
  obtain s1 where s1: "process_photos (sim_env 0) ?phs (initial_state w) = (Inr (), s1)"
    "exported_total (report s1) =
       exported_total (report (initial_state w)) + int (length (concat (map variant_targets ?phs)))"
    "originals_exported (report s1) = originals_exported (report (initial_state w)) + int (length ?phs)"
    "duplicates_skipped (report s1) = duplicates_skipped (report (initial_state w))"
    "\<forall>ph\<in>set ?phs. original_in_place (world s1) ph"
    unfolding w by blast
  have "\<forall>ph\<in>set ?phs. original_in_place (world (initial_state (world s1))) ph"
    using s1(5) by (simp add: initial_state_def)
  from sim_second_run [OF this]
  obtain s2 where s2: "process_photos (sim_env 0) ?phs (initial_state (world s1)) = (Inr (), s2)"
    "world s2 = world (initial_state (world s1))"
    "report s2 = (report (initial_state (world s1)))\<lparr>duplicates_skipped :=
        duplicates_skipped (report (initial_state (world s1))) + int (length ?phs)\<rparr>"
    "failed_files s2 = failed_files (initial_state (world s1))"
    "export_calls s2 = export_calls (initial_state (world s1))"
    by blast
  have a: "export_photos (sim_env 0) today library (initial_state w) = (Inr (), s1)"
    by (simp add: export_photos_def s1(1))
  have b: "export_photos (sim_env 0) today library (initial_state (world s1)) = (Inr (), s2)"
    by (simp add: export_photos_def s2(1))
  have c: "exported_total (report s1) = int (length (concat (map variant_targets ?phs)))"
    "originals_exported (report s1) = int (length ?phs)"
    "duplicates_skipped (report s1) = 0"
    unfolding s1(2,3,4) by (simp_all add: initial_state_def exported_total_def)
  have d: "duplicates_skipped (report s2) = int (length ?phs)"
    "originals_exported (report s2) = 0" "edits_exported (report s2) = 0"
    "live_photos_exported (report s2) = 0" "duplicates_created (report s2) = 0"
    unfolding s2(3) by (simp_all add: initial_state_def)
  have e: "export_calls s2 = []" "failed_files s2 = []" "world s2 = world s1"
    unfolding s2(2,4,5) by (simp_all add: initial_state_def export_calls_def)
  show ?thesis
    by (rule exI [of _ s1], rule exI [of _ s2]) (intro conjI a b c d e)
qed

theorem second_run_skips_one_per_photo_witness:
  "photos_to_process 738700 [sample_photo] = [sample_photo] \<and>
   CHR ''/'' \<notin> set (original_filename sample_photo) \<and>
   sources_readable (world sample_fresh) sample_photo \<and>
   variant_targets sample_photo =
     [sample_target,
      ''/Volumes/Archive/Picture Sources 01 RAW/15. iCloud Photos/2023/06/IMG_0042-edited.jpg''] \<and>
   files (world sample_fresh) sample_target = None \<and>
   files (world sample_fresh)
     ''/Volumes/Archive/Picture Sources 01 RAW/15. iCloud Photos/2023/06/IMG_0042-edited.jpg'' = None \<and>
   distinct (concat (map variant_targets (photos_to_process 738700 [sample_photo]))) \<and>
   (\<exists>s1 s2.
      export_photos (sim_env 0) 738700 [sample_photo] (initial_state (world sample_fresh))
        = (Inr (), s1) \<and>
      export_photos (sim_env 0) 738700 [sample_photo] (initial_state (world s1)) = (Inr (), s2) \<and>
      exported_total (report s1) = 2 \<and> originals_exported (report s1) = 1 \<and>
      duplicates_skipped (report s2) = 1 \<and> originals_exported (report s2) = 0 \<and>
      edits_exported (report s2) = 0 \<and> live_photos_exported (report s2) = 0)"
proof -
  have 0: "CHR ''/'' \<notin> set (original_filename sample_photo)"
    "sources_readable (world sample_fresh) sample_photo"
    by (simp_all add: sample_photo_def sources_readable_def sample_fresh_def sim_defs)
  have f: "files (world sample_fresh) sample_target = None"
    "files (world sample_fresh)
       ''/Volumes/Archive/Picture Sources 01 RAW/15. iCloud Photos/2023/06/IMG_0042-edited.jpg'' = None"
    by (simp_all add: sample_fresh_def sim_defs sample_target_def)
  have 1: "\<forall>ph\<in>set (photos_to_process 738700 [sample_photo]).
      CHR ''/'' \<notin> set (original_filename ph) \<and> sources_readable (world sample_fresh) ph"
    unfolding sample_process using 0 by simp
  have 2: "\<forall>t\<in>set (concat (map variant_targets (photos_to_process 738700 [sample_photo]))).
      files (world sample_fresh) t = None"
    unfolding sample_process using f by (simp add: sample_targets)
  have 3: "distinct (concat (map variant_targets (photos_to_process 738700 [sample_photo])))"
    unfolding sample_process by (simp add: sample_targets sample_target_def)
  from second_run_skips_one_per_photo [OF 1 2 3]
  obtain s1 s2 where r:
    "export_photos (sim_env 0) 738700 [sample_photo] (initial_state (world sample_fresh))
        = (Inr (), s1)"
    "export_photos (sim_env 0) 738700 [sample_photo] (initial_state (world s1)) = (Inr (), s2)"
    "exported_total (report s1)
       = int (length (concat (map variant_targets (photos_to_process 738700 [sample_photo]))))"
    "originals_exported (report s1) = int (length (photos_to_process 738700 [sample_photo]))"
    "duplicates_skipped (report s2) = int (length (photos_to_process 738700 [sample_photo]))"
    "originals_exported (report s2) = 0" "edits_exported (report s2) = 0"
    "live_photos_exported (report s2) = 0"
    by blast
  have n: "int (length (concat (map variant_targets (photos_to_process 738700 [sample_photo])))) = 2"
    "int (length (photos_to_process 738700 [sample_photo])) = 1"
    unfolding sample_process by (simp_all add: sample_targets)
  have "\<exists>s1 s2.
      export_photos (sim_env 0) 738700 [sample_photo] (initial_state (world sample_fresh))
        = (Inr (), s1) \<and>
      export_photos (sim_env 0) 738700 [sample_photo] (initial_state (world s1)) = (Inr (), s2) \<and>
      exported_total (report s1) = 2 \<and> originals_exported (report s1) = 1 \<and>
      duplicates_skipped (report s2) = 1 \<and> originals_exported (report s2) = 0 \<and>
      edits_exported (report s2) = 0 \<and> live_photos_exported (report s2) = 0"
    using r unfolding n by blast
  with sample_process 0 sample_targets f 3 show ?thesis by blast
qed

section \<open>Claims about the Pipeline Driver\<close>

text \<open>
  Claim C10. The recent photos are those of the library whose capture date is on or after
  today minus 35 days, in the library's order. In every run, the directory creations
  logged are those of the first \<open>k\<close> recent photos, one each and in that order, every
  export call logged is for one of these photos, and \<open>k\<close> is the number of recent photos
  when the run ends normally. The call log of a run that ends normally is, block after
  block in that order, for each recent photo the creation of its directory, the existence
  check of its Original's target and then calls that create no directory and export no
  other photo. The run is also the run on the recent photos alone: result, counters,
  failure list, call log and world are the same, so a photo captured earlier is never
  exported, compared or counted.
\<close>

theorem export_photos_since_start_date:
  fixes E :: "('w, 'i) env" and today :: int and library :: "photo list"
  defines "recent \<equiv> filter (\<lambda>ph. today - 35 \<le> date_ordinal (date ph)) library"
  assumes run: "export_photos E today library s = (r, s')"
  shows "(\<exists>k cs. k \<le> length recent \<and> (r = Inr () \<longrightarrow> k = length recent) \<and>
            makedirs_calls s' =
              makedirs_calls s @ map (\<lambda>ph. Makedirs (year_month_path ph)) (take k recent) \<and>
            calls s' = calls s @ cs \<and> list_all (exports_of (take k recent)) cs) \<and>
         (r = Inr () \<longrightarrow>
            (\<exists>css. calls s' = calls s @ concat (map2 photo_block recent css) \<and>
                   list_all2 (\<lambda>ph cs. list_all (own_call ph) cs) recent css)) \<and>
         export_photos E today recent s = (r, s')"
proof -
  have p: "photos_to_process today library = recent"
    by (simp add: photos_to_process_def START_DATE_def OVERLAP_PERIOD_def recent_def)
  from run have pr: "process_photos E recent s = (r, s')"
    by (simp add: export_photos_def p)
  have 1: "\<exists>k cs. k \<le> length recent \<and> (r = Inr () \<longrightarrow> k = length recent) \<and>
            makedirs_calls s' =
              makedirs_calls s @ map (\<lambda>ph. Makedirs (year_month_path ph)) (take k recent) \<and>
            calls s' = calls s @ cs \<and> list_all (exports_of (take k recent)) cs"
    using process_photos_started [OF pr] .
  have 2: "r = Inr () \<longrightarrow>
            (\<exists>css. calls s' = calls s @ concat (map2 photo_block recent css) \<and>
                   list_all2 (\<lambda>ph cs. list_all (own_call ph) cs) recent css)"
    using process_photos_finished [of E recent s s'] pr by blast
  have "photos_to_process today recent = recent"
    by (simp add: photos_to_process_def START_DATE_def OVERLAP_PERIOD_def recent_def)
  then have 3: "export_photos E today recent s = (r, s')"
    by (simp add: export_photos_def pr)
  from 1 2 3 show ?thesis by blast
qed

theorem export_photos_since_start_date_witness:
  "date_ordinal (date sample_old_photo) < 738700 - 35 \<and>
   738700 - 35 \<le> date_ordinal (date sample_photo) \<and>
   export_photos (sim_env 0) 738700 [sample_old_photo, sample_photo] sample_fresh
     = (Inr (), sample_first_run) \<and>
   makedirs_calls sample_first_run =
     [Makedirs ''/Volumes/Archive/Picture Sources 01 RAW/15. iCloud Photos/2023/06''] \<and>
   list_all (exports_of [sample_photo]) (calls sample_first_run) \<and>
   (\<exists>css. calls sample_first_run = concat (map2 photo_block [sample_photo] css) \<and>
          list_all2 (\<lambda>ph cs. list_all (own_call ph) cs) [sample_photo] css)"
proof -
  have d: "date_ordinal (date sample_old_photo) < 738700 - 35"
    "738700 - 35 \<le> date_ordinal (date sample_photo)"
    by (simp_all add: sample_old_photo_def sample_photo_def sample_date_def)
  then have f: "filter (\<lambda>ph. 738700 - 35 \<le> date_ordinal (date ph)) [sample_old_photo, sample_photo]
      = [sample_photo]"
    by simp
  have "photos_to_process 738700 [sample_old_photo, sample_photo] = [sample_photo]"
    using f by (simp add: photos_to_process_def START_DATE_def OVERLAP_PERIOD_def)
  then have run: "export_photos (sim_env 0) 738700 [sample_old_photo, sample_photo] sample_fresh
     = (Inr (), sample_first_run)"
    using sample_first_run_report(1) by (simp add: export_photos_def sample_process)
  have c0: "calls sample_fresh = []" "makedirs_calls sample_fresh = []"
    by (simp_all add: sample_fresh_def initial_state_def makedirs_calls_def)
  note T = export_photos_since_start_date [OF run, unfolded f c0]
  from T obtain k cs where k: "k \<le> length [sample_photo]" "k = length [sample_photo]"
    "makedirs_calls sample_first_run =
       [] @ map (\<lambda>ph. Makedirs (year_month_path ph)) (take k [sample_photo])"
    "calls sample_first_run = [] @ cs" "list_all (exports_of (take k [sample_photo])) cs"
    by blast
  have m: "makedirs_calls sample_first_run =
     [Makedirs ''/Volumes/Archive/Picture Sources 01 RAW/15. iCloud Photos/2023/06'']"
    using k(2,3) by (simp add: sample_year_month)
  have e: "list_all (exports_of [sample_photo]) (calls sample_first_run)"
    using k(2,4,5) by simp
  from T have b: "\<exists>css. calls sample_first_run = concat (map2 photo_block [sample_photo] css) \<and>
          list_all2 (\<lambda>ph cs. list_all (own_call ph) cs) [sample_photo] css"
    by simp
  show ?thesis by (intro conjI d run m e b)
qed

end
